theory Spec2Isabelle
  imports Complex_Main "HOL-Library.Word"
begin

section \<open>Floating-point values\<close>

text \<open>
  The value type of the kernels is an IEEE 754 floating-point type. Where the behaviour
  of a kernel depends on values that are not numbers, the values are taken from \<open>fval\<close>:
  a finite value, one of the two infinities, or NaN. The operations are those of the
  binary64 format, with two simplifications: a finite result is the exact rational
  result (rounding is not modelled), and zero carries no sign. A result whose magnitude
  exceeds the largest finite value \<open>fmax\<close> overflows to an infinity; an undefined result
  (\<open>0 * inf\<close>, \<open>inf - inf\<close>, \<open>0 / 0\<close>, \<open>inf / inf\<close>) and every operation on NaN gives NaN;
  every comparison with NaN is false, as is \<open>NaN == 0\<close>.
\<close>

datatype fval = Fin rat | PInf | NInf | NaN

definition fmax :: rat where
  "fmax = 2 ^ 1024 - 2 ^ 971"

definition overflow :: "rat \<Rightarrow> fval" where
  "overflow x = (if fmax < x then PInf else if x < - fmax then NInf else Fin x)"

fun fneg :: "fval \<Rightarrow> fval" where
  "fneg (Fin x) = Fin (- x)"
| "fneg PInf = NInf"
| "fneg NInf = PInf"
| "fneg NaN = NaN"

fun fabs :: "fval \<Rightarrow> fval" where
  "fabs (Fin x) = Fin (abs x)"
| "fabs PInf = PInf"
| "fabs NInf = PInf"
| "fabs NaN = NaN"

fun fadd :: "fval \<Rightarrow> fval \<Rightarrow> fval" where
  "fadd (Fin x) (Fin y) = overflow (x + y)"
| "fadd NaN y = NaN"
| "fadd x NaN = NaN"
| "fadd PInf NInf = NaN"
| "fadd NInf PInf = NaN"
| "fadd PInf y = PInf"
| "fadd NInf y = NInf"
| "fadd x PInf = PInf"
| "fadd x NInf = NInf"

definition inf_signed :: "bool \<Rightarrow> fval" where
  "inf_signed positive = (if positive then PInf else NInf)"

fun fmul :: "fval \<Rightarrow> fval \<Rightarrow> fval" where
  "fmul (Fin x) (Fin y) = overflow (x * y)"
| "fmul NaN y = NaN"
| "fmul x NaN = NaN"
| "fmul (Fin x) PInf = (if x = 0 then NaN else inf_signed (0 < x))"
| "fmul (Fin x) NInf = (if x = 0 then NaN else inf_signed (x < 0))"
| "fmul PInf (Fin y) = (if y = 0 then NaN else inf_signed (0 < y))"
| "fmul NInf (Fin y) = (if y = 0 then NaN else inf_signed (y < 0))"
| "fmul PInf PInf = PInf"
| "fmul NInf NInf = PInf"
| "fmul PInf NInf = NInf"
| "fmul NInf PInf = NInf"

fun fdiv :: "fval \<Rightarrow> fval \<Rightarrow> fval" where
  "fdiv (Fin x) (Fin y) =
     (if y = 0 then (if x = 0 then NaN else inf_signed (0 < x)) else overflow (x / y))"
| "fdiv NaN y = NaN"
| "fdiv x NaN = NaN"
| "fdiv (Fin x) PInf = Fin 0"
| "fdiv (Fin x) NInf = Fin 0"
| "fdiv PInf (Fin y) = inf_signed (0 \<le> y)"
| "fdiv NInf (Fin y) = inf_signed (y < 0)"
| "fdiv PInf PInf = NaN"
| "fdiv PInf NInf = NaN"
| "fdiv NInf PInf = NaN"
| "fdiv NInf NInf = NaN"

fun fless :: "fval \<Rightarrow> fval \<Rightarrow> bool" where
  "fless (Fin x) (Fin y) = (x < y)"
| "fless NaN y = False"
| "fless x NaN = False"
| "fless NInf NInf = False"
| "fless NInf y = True"
| "fless x NInf = False"
| "fless PInf y = False"
| "fless x PInf = True"

instantiation fval :: "{zero, one, plus, minus, uminus, times, inverse, abs, ord}"
begin

definition zero_fval :: fval where "zero_fval = Fin 0"

definition one_fval :: fval where "one_fval = Fin 1"

definition plus_fval :: "fval \<Rightarrow> fval \<Rightarrow> fval" where "plus_fval x y = fadd x y"

definition uminus_fval :: "fval \<Rightarrow> fval" where "uminus_fval x = fneg x"

definition minus_fval :: "fval \<Rightarrow> fval \<Rightarrow> fval" where "minus_fval x y = fadd x (fneg y)"

definition times_fval :: "fval \<Rightarrow> fval \<Rightarrow> fval" where "times_fval x y = fmul x y"

definition divide_fval :: "fval \<Rightarrow> fval \<Rightarrow> fval" where "divide_fval x y = fdiv x y"

definition inverse_fval :: "fval \<Rightarrow> fval" where "inverse_fval x = fdiv (Fin 1) x"

definition abs_fval :: "fval \<Rightarrow> fval" where "abs_fval x = fabs x"

definition less_fval :: "fval \<Rightarrow> fval \<Rightarrow> bool" where "less_fval x y = fless x y"

definition less_eq_fval :: "fval \<Rightarrow> fval \<Rightarrow> bool" where
  "less_eq_fval x y = (fless x y \<or> (x = y \<and> x \<noteq> NaN))"

instance ..

end

section \<open>Elimination forest: parent detection (cholesky kernels, forest_from_factor)\<close>

text \<open>
  The factor is handed over in compressed-sparse-row form: \<open>row_ptrs\<close> has one entry per
  row plus a closing entry, \<open>col_idxs\<close> holds the column indices of the stored entries.
  Index values are modelled as naturals (the source's signed index type never holds a
  negative value in a well-formed pattern).

  The device lambda of \<open>forest_from_factor\<close> walks row \<open>l_col\<close> of the combined storage
  from \<open>llt_row_begin\<close> to \<open>llt_row_end\<close> and returns the first column index that is
  larger than \<open>l_col\<close>; when the walk reaches the end of the row it returns the
  pseudo-root \<open>num_rows\<close>.
\<close>

function forest_scan :: "nat list \<Rightarrow> nat \<Rightarrow> nat \<Rightarrow> nat \<Rightarrow> nat \<Rightarrow> nat" where
  "forest_scan col_idxs num_rows l_col nz llt_row_end =
     (if nz < llt_row_end then
        (let l_row = col_idxs ! nz in
         if l_row > l_col then l_row
         else forest_scan col_idxs num_rows l_col (nz + 1) llt_row_end)
      else num_rows)"
  by pat_completeness auto
termination
  by (relation "measure (\<lambda>(c, n, l, nz, e). e - nz)") auto

declare forest_scan.simps [simp del]

definition forest_parent :: "nat \<Rightarrow> nat list \<Rightarrow> nat list \<Rightarrow> nat \<Rightarrow> nat" where
  "forest_parent num_rows row_ptrs col_idxs l_col =
     (let llt_row_begin = row_ptrs ! l_col;
          llt_row_end = row_ptrs ! (l_col + 1)
      in forest_scan col_idxs num_rows l_col llt_row_begin llt_row_end)"

definition forest_from_factor :: "nat \<Rightarrow> nat list \<Rightarrow> nat list \<Rightarrow> nat list" where
  "forest_from_factor num_rows row_ptrs col_idxs =
     map (forest_parent num_rows row_ptrs col_idxs) [0..<num_rows]"

text \<open>Vocabulary for the statements: the column indices of one row, a well-formed
  pattern, and the stored-entry relation.\<close>

definition row_cols :: "nat list \<Rightarrow> nat list \<Rightarrow> nat \<Rightarrow> nat list" where
  "row_cols row_ptrs col_idxs i =
     map (\<lambda>nz. col_idxs ! nz) [row_ptrs ! i ..< row_ptrs ! (i + 1)]"

definition csr_wf :: "nat \<Rightarrow> nat list \<Rightarrow> nat list \<Rightarrow> bool" where
  "csr_wf num_rows row_ptrs col_idxs \<longleftrightarrow>
     length row_ptrs = num_rows + 1 \<and>
     (\<forall>i \<in> {0..<num_rows}. row_ptrs ! i \<le> row_ptrs ! (i + 1)) \<and>
     (\<forall>i \<in> {0..<num_rows}. row_ptrs ! (i + 1) \<le> length col_idxs) \<and>
     (\<forall>i \<in> {0..<num_rows}. \<forall>c \<in> set (row_cols row_ptrs col_idxs i). c < num_rows)"

definition stored :: "nat list \<Rightarrow> nat list \<Rightarrow> nat \<Rightarrow> nat \<Rightarrow> bool" where
  "stored row_ptrs col_idxs i j \<longleftrightarrow> j \<in> set (row_cols row_ptrs col_idxs i)"

definition struct_symmetric :: "nat \<Rightarrow> nat list \<Rightarrow> nat list \<Rightarrow> bool" where
  "struct_symmetric num_rows row_ptrs col_idxs \<longleftrightarrow>
     (\<forall>i \<in> {0..<num_rows}. \<forall>j \<in> {0..<num_rows}.
        stored row_ptrs col_idxs i j = stored row_ptrs col_idxs j i)"

definition rows_sorted :: "nat \<Rightarrow> nat list \<Rightarrow> nat list \<Rightarrow> bool" where
  "rows_sorted num_rows row_ptrs col_idxs \<longleftrightarrow>
     (\<forall>i \<in> {0..<num_rows}. sorted (row_cols row_ptrs col_idxs i))"

lemma forest_scan_sorted:
  assumes "sorted (map (\<lambda>nz. col_idxs ! nz) [b..<e])"
  shows "forest_scan col_idxs n j b e =
     (if \<exists>c \<in> set (map (\<lambda>nz. col_idxs ! nz) [b..<e]). j < c
      then Min {c \<in> set (map (\<lambda>nz. col_idxs ! nz) [b..<e]). j < c} else n)"
  using assms
proof (induction col_idxs n j b e rule: forest_scan.induct)
  case (1 col_idxs num_rows l_col nz llt_row_end)
  let ?f = "\<lambda>nz. col_idxs ! nz"
  show ?case
  proof (cases "nz < llt_row_end")
    case False
    then show ?thesis by (simp add: forest_scan.simps)
  next
    case True
    then have up: "[nz..<llt_row_end] = nz # [nz + 1..<llt_row_end]"
      by (simp add: upt_conv_Cons)
    have srt: "sorted (map ?f [nz + 1..<llt_row_end])"
      and le: "\<forall>c \<in> set (map ?f [nz + 1..<llt_row_end]). ?f nz \<le> c"
      using "1.prems" up by auto
    show ?thesis
    proof (cases "l_col < ?f nz")
      case big: True
      have "Min {c \<in> set (map ?f [nz..<llt_row_end]). l_col < c} = ?f nz"
      proof (rule Min_eqI)
        show "finite {c \<in> set (map ?f [nz..<llt_row_end]). l_col < c}" by simp
        show "?f nz \<in> {c \<in> set (map ?f [nz..<llt_row_end]). l_col < c}"
          using big up by simp
        fix y assume "y \<in> {c \<in> set (map ?f [nz..<llt_row_end]). l_col < c}"
        then show "?f nz \<le> y" using le up by auto
      qed
      moreover have "\<exists>c \<in> set (map ?f [nz..<llt_row_end]). l_col < c"
        using big up by simp
      ultimately show ?thesis
        using True big by (subst forest_scan.simps) (simp add: Let_def)
    next
      case small: False
      have eq: "{c \<in> set (map ?f [nz..<llt_row_end]). l_col < c}
              = {c \<in> set (map ?f [nz + 1..<llt_row_end]). l_col < c}"
        using small up by auto
      have ex: "(\<exists>c \<in> set (map ?f [nz..<llt_row_end]). l_col < c)
              = (\<exists>c \<in> set (map ?f [nz + 1..<llt_row_end]). l_col < c)"
        using small up by auto
      have "forest_scan col_idxs num_rows l_col nz llt_row_end
          = forest_scan col_idxs num_rows l_col (nz + 1) llt_row_end"
        using True small by (subst forest_scan.simps) (simp add: Let_def)
      also have "\<dots> = (if \<exists>c \<in> set (map ?f [nz + 1..<llt_row_end]). l_col < c
          then Min {c \<in> set (map ?f [nz + 1..<llt_row_end]). l_col < c} else num_rows)"
        using "1.IH" True small srt by simp
      finally show ?thesis using eq ex by simp
    qed
  qed
qed

lemma forest_parent_row:
  assumes "rows_sorted num_rows row_ptrs col_idxs" and "j < num_rows"
  shows "forest_from_factor num_rows row_ptrs col_idxs ! j =
     (if \<exists>c \<in> set (row_cols row_ptrs col_idxs j). j < c
      then Min {c \<in> set (row_cols row_ptrs col_idxs j). j < c} else num_rows)"
proof -
  have "sorted (row_cols row_ptrs col_idxs j)"
    using assms by (simp add: rows_sorted_def)
  then show ?thesis
    using assms(2) forest_scan_sorted [where col_idxs = col_idxs and b = "row_ptrs ! j"
        and e = "row_ptrs ! (j + 1)" and j = j and n = num_rows]
    by (simp add: forest_from_factor_def forest_parent_def row_cols_def Let_def)
qed

lemma forest_scan_gt:
  "n > j \<Longrightarrow> forest_scan col_idxs n j b e > j"
  by (induction col_idxs n j b e rule: forest_scan.induct)
     (subst forest_scan.simps, simp add: Let_def)

text \<open>
  Claim C6, counterexample. The 4-by-4 pattern with off-diagonal entries at (1,0), (2,0),
  (3,2), stored with its diagonal and its mirror image above the diagonal (the storage
  the routine reads), does not yield the parents \<open>[4, 4, 0, 2]\<close>: the routine returns
  \<open>[1, 4, 3, 4]\<close>.
\<close>

theorem forest_scenario_counterexample:
  "forest_from_factor 4 [0, 3, 5, 8, 10] [0, 1, 2, 0, 1, 0, 2, 3, 2, 3] \<noteq> [4, 4, 0, 2]"
  by code_simp

text \<open>
  Claim C6, as amended. For a well-formed, structurally symmetric pattern with sorted
  column indices in every row, the parent of column \<open>j\<close> is the smallest row index
  \<open>i > j\<close> with a stored entry \<open>(i, j)\<close>, and the pseudo-root \<open>num_rows\<close> when there is
  no such entry; for the 4-by-4 pattern of the scenario the parents are \<open>[1, 4, 3, 4]\<close>.
\<close>

theorem forest_from_factor_parent:
  "(csr_wf num_rows row_ptrs col_idxs \<and> rows_sorted num_rows row_ptrs col_idxs \<and>
    struct_symmetric num_rows row_ptrs col_idxs \<and> j < num_rows \<longrightarrow>
    forest_from_factor num_rows row_ptrs col_idxs ! j =
      (if {i. j < i \<and> i < num_rows \<and> stored row_ptrs col_idxs i j} = {} then num_rows
       else Min {i. j < i \<and> i < num_rows \<and> stored row_ptrs col_idxs i j})) \<and>
   forest_from_factor 4 [0, 3, 5, 8, 10] [0, 1, 2, 0, 1, 0, 2, 3, 2, 3] = [1, 4, 3, 4]"
proof (intro conjI impI)
  show "forest_from_factor 4 [0, 3, 5, 8, 10] [0, 1, 2, 0, 1, 0, 2, 3, 2, 3] = [1, 4, 3, 4]"
    by code_simp
next
  assume a: "csr_wf num_rows row_ptrs col_idxs \<and> rows_sorted num_rows row_ptrs col_idxs \<and>
    struct_symmetric num_rows row_ptrs col_idxs \<and> j < num_rows"
  then have j: "j < num_rows" by simp
  have "{i. j < i \<and> i < num_rows \<and> stored row_ptrs col_idxs i j}
      = {c \<in> set (row_cols row_ptrs col_idxs j). j < c}"
  proof (intro set_eqI iffI)
    fix i assume "i \<in> {i. j < i \<and> i < num_rows \<and> stored row_ptrs col_idxs i j}"
    then show "i \<in> {c \<in> set (row_cols row_ptrs col_idxs j). j < c}"
      using a by (auto simp: struct_symmetric_def stored_def)
  next
    fix i assume i: "i \<in> {c \<in> set (row_cols row_ptrs col_idxs j). j < c}"
    then have "i < num_rows" using a by (auto simp: csr_wf_def)
    then show "i \<in> {i. j < i \<and> i < num_rows \<and> stored row_ptrs col_idxs i j}"
      using a i by (auto simp: struct_symmetric_def stored_def)
  qed
  moreover have "({c \<in> set (row_cols row_ptrs col_idxs j). j < c} = {})
      = (\<not> (\<exists>c \<in> set (row_cols row_ptrs col_idxs j). j < c))"
    by auto
  ultimately show "forest_from_factor num_rows row_ptrs col_idxs ! j =
      (if {i. j < i \<and> i < num_rows \<and> stored row_ptrs col_idxs i j} = {} then num_rows
       else Min {i. j < i \<and> i < num_rows \<and> stored row_ptrs col_idxs i j})"
    using forest_parent_row [of num_rows row_ptrs col_idxs j] a by simp
qed

theorem forest_from_factor_parent_witness:
  "csr_wf 4 [0, 3, 5, 8, 10] [0, 1, 2, 0, 1, 0, 2, 3, 2, 3] \<and>
   rows_sorted 4 [0, 3, 5, 8, 10] [0, 1, 2, 0, 1, 0, 2, 3, 2, 3] \<and>
   struct_symmetric 4 [0, 3, 5, 8, 10] [0, 1, 2, 0, 1, 0, 2, 3, 2, 3] \<and>
   stored [0, 3, 5, 8, 10] [0, 1, 2, 0, 1, 0, 2, 3, 2, 3] 3 2 \<and>
   forest_from_factor 4 [0, 3, 5, 8, 10] [0, 1, 2, 0, 1, 0, 2, 3, 2, 3] ! 2 =
     Min {i. 2 < i \<and> i < 4 \<and> stored [0, 3, 5, 8, 10] [0, 1, 2, 0, 1, 0, 2, 3, 2, 3] i 2}"
proof -
  let ?rp = "[0, 3, 5, 8, 10] :: nat list"
  let ?ci = "[0, 1, 2, 0, 1, 0, 2, 3, 2, 3] :: nat list"
  have wf: "csr_wf 4 ?rp ?ci" by code_simp
  have so: "rows_sorted 4 ?rp ?ci" by code_simp
  have sy: "struct_symmetric 4 ?rp ?ci" by code_simp
  have st: "stored ?rp ?ci 3 2" by code_simp
  then have "(3::nat) \<in> {i. 2 < i \<and> i < 4 \<and> stored ?rp ?ci i 2}" by simp
  then have ne: "{i. 2 < i \<and> i < 4 \<and> stored ?rp ?ci i 2} \<noteq> {}" by blast
  have lt: "(2::nat) < 4" by simp
  from forest_from_factor_parent [of 4 ?rp ?ci 2] wf so sy lt
  have "forest_from_factor 4 ?rp ?ci ! 2 =
      (if {i. 2 < i \<and> i < 4 \<and> stored ?rp ?ci i 2} = {} then 4
       else Min {i. 2 < i \<and> i < 4 \<and> stored ?rp ?ci i 2})"
    by blast
  with ne have "forest_from_factor 4 ?rp ?ci ! 2 =
      Min {i. 2 < i \<and> i < 4 \<and> stored ?rp ?ci i 2}"
    by (simp only: if_False)
  with wf so sy st show ?thesis by blast
qed

section \<open>Sample select: search tree and bucket classification\<close>

text \<open>
  The kernels are parametrised by two compile-time constants that are declared outside the
  translated sources: the search-tree height \<open>h\<close> (\<open>sampleselect_searchtree_height\<close>)
  and the oversampling factor \<open>os\<close> (\<open>sampleselect_oversampling\<close>). The kernels are
  templates over the value type: the definitions need only its absolute value and its
  comparison, so that they apply to a linearly ordered type as well as to the
  floating-point values \<open>fval\<close>, where NaN is unordered.
\<close>

definition searchtree_width :: "nat \<Rightarrow> nat" where
  "searchtree_width h = 2 ^ h"

definition searchtree_inner_size :: "nat \<Rightarrow> nat" where
  "searchtree_inner_size h = searchtree_width h - 1"

definition searchtree_size :: "nat \<Rightarrow> nat" where
  "searchtree_size h = searchtree_width h + searchtree_inner_size h"

definition sample_size :: "nat \<Rightarrow> nat \<Rightarrow> nat" where
  "sample_size h os = searchtree_width h * os"

text \<open>The intrinsic \<open>ffs\<close>: the 1-based index of the least significant set bit, and 0
  for the argument 0.\<close>

fun ffs :: "nat \<Rightarrow> nat" where
  "ffs n = (if n = 0 then 0 else if odd n then 1 else 1 + ffs (n div 2))"

declare ffs.simps [simp del]

text \<open>Modelled from the spec: \<open>bitonic_sort\<close> is not among the translated sources; the
  specification describes it as a fixed-size bitonic sorting network, which sorts the
  samples of the whole thread block in ascending order. The model sorts by insertion
  with the comparison of the value type; on a linear order it is the function \<open>sort\<close>.\<close>

fun insert_sample :: "'a::ord \<Rightarrow> 'a list \<Rightarrow> 'a list" where
  "insert_sample x [] = [x]"
| "insert_sample x (y # ys) = (if x \<le> y then x # y # ys else y # insert_sample x ys)"

definition bitonic_sort :: "'a::ord list \<Rightarrow> 'a list" where
  "bitonic_sort xs = foldr insert_sample xs []"

text \<open>
  The sample positions are computed in double precision. A non-negative double is
  represented by a fraction, a pair of a numerator and a positive denominator;
  \<open>round_to_double\<close> gives the binary64 value nearest to a fraction (a significand of
  53 bits, ties to the even significand). The exponent range is not modelled: the
  values are quotients and products of array sizes and thread indices.
\<close>

function bit_length :: "int \<Rightarrow> int" where
  "bit_length n = (if n \<le> 0 then 0 else 1 + bit_length (n div 2))"
  by pat_completeness auto

termination
  by (relation "measure nat") auto

declare bit_length.simps [simp del]

definition round_to_double :: "int \<times> int \<Rightarrow> int \<times> int" where
  "round_to_double x =
     (case x of (p, q) \<Rightarrow>
        if p = 0 then (0, 1)
        else
          let k = bit_length p - bit_length q;
              e = (if 0 \<le> k then (if q * 2 ^ nat k \<le> p then k else k - 1)
                   else (if q \<le> p * 2 ^ nat (- k) then k else k - 1));
              sh = 52 - e;
              num = (if 0 \<le> sh then p * 2 ^ nat sh else p);
              den = (if 0 \<le> sh then q else q * 2 ^ nat (- sh));
              n = num div den;
              r = num mod den;
              m = (if 2 * r < den then n
                   else if den < 2 * r then n + 1
                   else if even n then n else n + 1)
          in if 0 \<le> sh then (m, 2 ^ nat sh) else (m * 2 ^ nat (- sh), 1))"

text \<open>
  \<open>build_searchtree\<close> runs in one thread block of \<open>searchtree_width\<close> threads. Thread
  \<open>idx\<close> reads the samples \<open>lidx = idx * os + i\<close> at the input position
  \<open>lidx * stride\<close> truncated towards zero, with \<open>stride = double(size) / sample_size\<close>;
  the conversion, the quotient and the product are rounded to double precision (the
  conversions of \<open>sample_size\<close> and \<open>lidx\<close> are exact). After the sort thread \<open>idx\<close> holds the
  sorted samples \<open>idx * os, \<dots>, idx * os + os - 1\<close>, and writes the first of them to its
  leaf and, when \<open>idx > 0\<close>, to one inner node.
\<close>

definition sample_index :: "nat \<Rightarrow> nat \<Rightarrow> nat \<Rightarrow> nat \<Rightarrow> nat" where
  "sample_index h os sz lidx =
     (let size_d = round_to_double (int sz, 1);
          stride = round_to_double (fst size_d, snd size_d * int (sample_size h os));
          pos = round_to_double (int lidx * fst stride, snd stride)
      in nat (fst pos div snd pos))"

definition sorted_samples :: "nat \<Rightarrow> nat \<Rightarrow> 'a::{abs,ord} list \<Rightarrow> nat \<Rightarrow> 'a list" where
  "sorted_samples h os input sz =
     bitonic_sort (map (\<lambda>lidx. abs (input ! sample_index h os sz lidx))
                       [0..<sample_size h os])"

definition tree_thread :: "nat \<Rightarrow> nat \<Rightarrow> 'a list \<Rightarrow> nat \<Rightarrow> 'a list \<Rightarrow> 'a list" where
  "tree_thread h os sh_samples idx tree_output =
     (let samples0 = sh_samples ! (idx * os);
          t1 = (if idx > 0 then
                  (let level = h - ffs idx;
                       idx_in_level = idx div 2 ^ ffs idx;
                       previous_levels = 2 ^ level - 1
                   in tree_output[idx_in_level + previous_levels := samples0])
                else tree_output)
      in t1[idx + searchtree_inner_size h := samples0])"

definition build_searchtree ::
  "nat \<Rightarrow> nat \<Rightarrow> 'a::{abs,ord} list \<Rightarrow> nat \<Rightarrow> 'a list \<Rightarrow> 'a list" where
  "build_searchtree h os input sz tree_output =
     fold (tree_thread h os (sorted_samples h os input sz))
          [0..<searchtree_width h] tree_output"

text \<open>
  \<open>count_buckets\<close> runs in a grid of \<open>nb\<close> blocks of \<open>bs\<close> threads
  (\<open>default_block_size\<close>). The threads \<open>t < searchtree_inner_size\<close> of a block copy
  node \<open>t\<close> of the tree to the shared array \<open>sh_tree\<close>, and the threads
  \<open>t < searchtree_width\<close> zero the shared counter \<open>t\<close>; what the shared arrays hold
  before is arbitrary (\<open>sh_tree_init\<close>, \<open>sh_counter_init\<close>, per block). Then every
  element walks the inner nodes of the tree from the root for \<open>h\<close> levels; the bucket is
  the index of the leaf reached. The bucket is added to the block-local counter and
  stored in the one-byte oracle of the element. Block \<open>blk\<close> handles the index range from
  \<open>bs * blk * ipt\<close> to \<open>min (bs * (blk + 1) * ipt) size\<close>, its threads striding through it
  with step \<open>bs\<close>; the counter increments are atomic, so the range is processed here in
  ascending order. At the end the threads \<open>t < searchtree_width\<close> store the counter of
  bucket \<open>t\<close> at \<open>counter[blk + t * nb]\<close>.
\<close>

fun traverse :: "'a::ord list \<Rightarrow> 'a \<Rightarrow> nat \<Rightarrow> nat \<Rightarrow> nat" where
  "traverse sh_tree el 0 tree_idx = tree_idx"
| "traverse sh_tree el (Suc k) tree_idx =
     (let cmp = \<not> (el < sh_tree ! tree_idx)
      in traverse sh_tree el k (2 * tree_idx + 1 + (if cmp then 1 else 0)))"

definition bucket_of :: "nat \<Rightarrow> 'a::ord list \<Rightarrow> 'a \<Rightarrow> nat" where
  "bucket_of h sh_tree el = traverse sh_tree el h 0 - searchtree_inner_size h"


lemma ffs_odd_shift: "ffs ((2 * j + 1) * 2 ^ t) = t + 1"
proof (induction t)
  case 0
  show ?case by (subst ffs.simps) simp
next
  case (Suc t)
  let ?n = "(2 * j + 1) * 2 ^ Suc t"
  have d: "?n div 2 = (2 * j + 1) * 2 ^ t" by simp
  have "?n \<noteq> 0" "even ?n" by simp_all
  then have "ffs ?n = 1 + ffs (?n div 2)" by (subst ffs.simps) (simp only: if_False if_True simp_thms)
  then show ?case using Suc unfolding d by simp
qed

lemma ffs_decomp:
  "n > 0 \<Longrightarrow> \<exists>j. n = (2 * j + 1) * 2 ^ (ffs n - 1) \<and> ffs n > 0"
proof (induction n rule: ffs.induct)
  case (1 n)
  show ?case
  proof (cases "odd n")
    case True
    then obtain j where "n = 2 * j + 1" by (auto elim: oddE)
    then show ?thesis using True by (subst (1 2) ffs.simps) auto
  next
    case False
    then have n2: "n div 2 > 0" using "1.prems" by (auto elim!: evenE)
    from "1.IH" [OF _ False n2] "1.prems" obtain j where
      j: "n div 2 = (2 * j + 1) * 2 ^ (ffs (n div 2) - 1)" "ffs (n div 2) > 0" by auto
    have fn: "ffs n = 1 + ffs (n div 2)" using False "1.prems" by (subst ffs.simps) simp
    have "n = 2 * (n div 2)" using False by simp
    also have "\<dots> = (2 * j + 1) * 2 ^ (ffs n - 1)"
      using j fn by (cases "ffs (n div 2)") auto
    finally show ?thesis using fn by auto
  qed
qed

definition tree_pos :: "nat \<Rightarrow> nat \<Rightarrow> nat" where
  "tree_pos h idx = idx div 2 ^ ffs idx + (2 ^ (h - ffs idx) - 1)"

lemma tree_pos_level:
  assumes "l < h" "j < 2 ^ l"
  shows "tree_pos h ((2 * j + 1) * 2 ^ (h - l - 1)) = 2 ^ l - 1 + j"
proof -
  let ?t = "h - l - 1"
  have f: "ffs ((2 * j + 1) * 2 ^ ?t) = ?t + 1" by (rule ffs_odd_shift)
  have "(2 * j + 1) * 2 ^ ?t div (2 ^ ?t * 2) = ((2 * j + 1) * 2 ^ ?t div 2 ^ ?t) div 2"
    by (simp only: div_mult2_eq)
  also have "\<dots> = j" by simp
  finally have d: "(2 * j + 1) * 2 ^ ?t div 2 ^ (?t + 1) = j" by (simp add: mult.commute)
  have hl: "h - (?t + 1) = l" using assms by simp
  show ?thesis unfolding tree_pos_def f d hl by simp
qed

lemma pow2_split:
  assumes "(2 ^ l :: nat) + j = 2 ^ l' + j'" "j < 2 ^ l" "j' < 2 ^ l'"
  shows "l = l' \<and> j = j'"
proof -
  have "\<not> l < l'"
  proof
    assume "l < l'"
    then have "(2::nat) ^ (l + 1) \<le> 2 ^ l'" by (intro power_increasing) simp_all
    then show False using assms by simp
  qed
  moreover have "\<not> l' < l"
  proof
    assume "l' < l"
    then have "(2::nat) ^ (l' + 1) \<le> 2 ^ l" by (intro power_increasing) simp_all
    then show False using assms by simp
  qed
  ultimately have "l = l'" by simp
  then show ?thesis using assms by simp
qed

lemma tree_pos_char:
  assumes "0 < (idx::nat)" "idx < 2 ^ h"
  shows "\<exists>l j. l < h \<and> j < 2 ^ l \<and> idx = (2 * j + 1) * 2 ^ (h - l - 1)"
proof -
  from ffs_decomp [OF assms(1)] obtain j where
    j: "idx = (2 * j + 1) * 2 ^ (ffs idx - 1)" and f: "ffs idx > 0" by blast
  let ?t = "ffs idx - 1"
  have "1 * (2::nat) ^ ?t \<le> (2 * j + 1) * 2 ^ ?t" by (rule mult_le_mono1) simp
  then have "(2::nat) ^ ?t \<le> idx" using j by simp
  then have lt: "(2::nat) ^ ?t < 2 ^ h" using assms(2) by (rule le_less_trans)
  have th: "?t < h"
  proof (rule ccontr)
    assume "\<not> ?t < h"
    then have "(2::nat) ^ h \<le> 2 ^ ?t" by (intro power_increasing) simp_all
    then show False using lt by simp
  qed
  let ?l = "h - ?t - 1"
  have hl: "h - ?l - 1 = ?t" using th by simp
  have "?l + 1 + ?t = h" using th by simp
  then have "(2::nat) ^ (?l + 1) * 2 ^ ?t = 2 ^ h" by (simp only: power_add[symmetric])
  then have "(2 * j + 1) * 2 ^ ?t < 2 ^ (?l + 1) * (2::nat) ^ ?t"
    using j assms(2) by (simp only:)
  then have "2 * j + 1 < (2::nat) ^ (?l + 1)" by (simp only: mult_less_cancel2)
  then have "j < 2 ^ ?l" by simp
  moreover have "?l < h" using th by simp
  ultimately show ?thesis using j hl by metis
qed

lemma tree_pos_lt:
  assumes "0 < (idx::nat)" "idx < 2 ^ h"
  shows "tree_pos h idx < 2 ^ h - 1"
proof -
  from tree_pos_char [OF assms] obtain l j where
    lj: "l < h" "j < 2 ^ l" "idx = (2 * j + 1) * 2 ^ (h - l - 1)" by blast
  then have p: "tree_pos h idx = 2 ^ l - 1 + j" using tree_pos_level by simp
  have "(2::nat) ^ (l + 1) \<le> 2 ^ h" using lj(1) by (intro power_increasing) simp_all
  then show ?thesis using p lj(2) by simp
qed

lemma tree_pos_inj:
  assumes "0 < (a::nat)" "a < 2 ^ h" "0 < (b::nat)" "b < 2 ^ h" "tree_pos h a = tree_pos h b"
  shows "a = b"
proof -
  from tree_pos_char [OF assms(1,2)] obtain l j where
    lj: "l < h" "j < 2 ^ l" "a = (2 * j + 1) * 2 ^ (h - l - 1)" by blast
  from tree_pos_char [OF assms(3,4)] obtain l' j' where
    lj': "l' < h" "j' < 2 ^ l'" "b = (2 * j' + 1) * 2 ^ (h - l' - 1)" by blast
  have "2 ^ l - 1 + j = 2 ^ l' - 1 + j'"
    using assms(5) tree_pos_level lj lj' by simp
  moreover have "(1::nat) \<le> 2 ^ l" "(1::nat) \<le> 2 ^ l'" by simp_all
  ultimately have "(2 ^ l :: nat) + j = 2 ^ l' + j'" by linarith
  then have "l = l' \<and> j = j'" using lj(2) lj'(2) by (rule pow2_split)
  then show ?thesis using lj lj' by simp
qed

lemma tree_thread_eq:
  "tree_thread h os s idx t =
     (if idx > 0 then t[tree_pos h idx := s ! (idx * os)] else t)
       [idx + searchtree_inner_size h := s ! (idx * os)]"
  by (simp add: tree_thread_def tree_pos_def Let_def)

lemma tree_thread_props:
  assumes len: "length r = 2 ^ h + (2 ^ h - 1)" and n: "n < 2 ^ h"
  shows "length (tree_thread h os s n r) = length r"
    and "tree_thread h os s n r ! (n + searchtree_inner_size h) = s ! (n * os)"
    and "0 < n \<Longrightarrow> tree_thread h os s n r ! tree_pos h n = s ! (n * os)"
    and "p \<noteq> n + searchtree_inner_size h \<Longrightarrow> (0 < n \<Longrightarrow> p \<noteq> tree_pos h n) \<Longrightarrow>
           tree_thread h os s n r ! p = r ! p"
proof -
  have inner: "searchtree_inner_size h = 2 ^ h - 1"
    by (simp add: searchtree_inner_size_def searchtree_width_def)
  show "length (tree_thread h os s n r) = length r" by (simp add: tree_thread_eq)
  have leafpos: "n + searchtree_inner_size h < length r" using n len inner by simp
  then show "tree_thread h os s n r ! (n + searchtree_inner_size h) = s ! (n * os)"
    by (simp add: tree_thread_eq)
  show "tree_thread h os s n r ! tree_pos h n = s ! (n * os)" if "0 < n"
  proof -
    have "tree_pos h n < 2 ^ h - 1" using tree_pos_lt [OF that n] .
    then have "tree_pos h n \<noteq> n + searchtree_inner_size h" "tree_pos h n < length r"
      using inner len by simp_all
    then show ?thesis using that by (simp add: tree_thread_eq)
  qed
  show "tree_thread h os s n r ! p = r ! p"
    if "p \<noteq> n + searchtree_inner_size h" "0 < n \<Longrightarrow> p \<noteq> tree_pos h n"
    using that by (cases "0 < n") (simp_all add: tree_thread_eq)
qed

lemma build_prefix:
  assumes "length t = searchtree_size h"
  shows "n \<le> 2 ^ h \<Longrightarrow>
     length (fold (tree_thread h os s) [0..<n] t) = length t \<and>
     (\<forall>idx < n. fold (tree_thread h os s) [0..<n] t ! (idx + searchtree_inner_size h)
          = s ! (idx * os)) \<and>
     (\<forall>idx < n. 0 < idx \<longrightarrow>
          fold (tree_thread h os s) [0..<n] t ! tree_pos h idx = s ! (idx * os))"
proof (induction n)
  case 0
  show ?case by simp
next
  case (Suc n)
  define r where "r = fold (tree_thread h os s) [0..<n] t"
  let ?inner = "searchtree_inner_size h"
  have n: "n < 2 ^ h" using Suc.prems by simp
  have IH: "length r = length t"
    "\<And>idx. idx < n \<Longrightarrow> r ! (idx + ?inner) = s ! (idx * os)"
    "\<And>idx. idx < n \<Longrightarrow> 0 < idx \<Longrightarrow> r ! tree_pos h idx = s ! (idx * os)"
    using Suc.IH n unfolding r_def by simp_all
  have inner: "?inner = 2 ^ h - 1" by (simp add: searchtree_inner_size_def searchtree_width_def)
  have len: "length r = 2 ^ h + (2 ^ h - 1)"
    using IH(1) assms by (simp add: searchtree_size_def searchtree_width_def inner)
  have step: "fold (tree_thread h os s) [0..<Suc n] t = tree_thread h os s n r"
    unfolding r_def by simp
  note tp = tree_thread_props [OF len n, where os = os and s = s]
  show ?case unfolding step
  proof (intro conjI allI impI)
    show "length (tree_thread h os s n r) = length t"
      using IH(1) tp(1) by simp
  next
    fix idx assume i: "idx < Suc n"
    show "tree_thread h os s n r ! (idx + ?inner) = s ! (idx * os)"
    proof (cases "idx = n")
      case True
      then show ?thesis using tp(2) by simp
    next
      case False
      then have lt: "idx < n" using i by simp
      have "n > 0 \<Longrightarrow> idx + ?inner \<noteq> tree_pos h n"
        using tree_pos_lt [of n h] n inner by simp
      then show ?thesis using False IH(2) [OF lt] tp(4) [of "idx + ?inner"] by simp
    qed
  next
    fix idx assume i: "idx < Suc n" and pos: "0 < idx"
    have ilt: "idx < 2 ^ h" using i n by simp
    have ne: "tree_pos h idx \<noteq> n + ?inner"
      using tree_pos_lt [OF pos ilt] inner by simp
    show "tree_thread h os s n r ! tree_pos h idx = s ! (idx * os)"
    proof (cases "idx = n")
      case True
      then show ?thesis using tp(3) pos by simp
    next
      case False
      then have lt: "idx < n" using i by simp
      have "n > 0 \<Longrightarrow> tree_pos h idx \<noteq> tree_pos h n"
        using tree_pos_inj [of idx h n] n ilt pos False by auto
      then show ?thesis using ne IH(3) [OF lt pos] tp(4) [of "tree_pos h idx"] by simp
    qed
  qed
qed

definition leaf :: "nat \<Rightarrow> 'a list \<Rightarrow> nat \<Rightarrow> 'a" where
  "leaf h tree b = tree ! (b + searchtree_inner_size h)"

lemma build_searchtree_layout:
  assumes "length t = searchtree_size h"
  shows "length (build_searchtree h os input sz t) = searchtree_size h"
    and "b < 2 ^ h \<Longrightarrow>
           leaf h (build_searchtree h os input sz t) b = sorted_samples h os input sz ! (b * os)"
    and "l < h \<Longrightarrow> j < 2 ^ l \<Longrightarrow>
           build_searchtree h os input sz t ! (2 ^ l - 1 + j)
             = leaf h (build_searchtree h os input sz t) ((2 * j + 1) * 2 ^ (h - l - 1))"
proof -
  let ?s = "sorted_samples h os input sz"
  note bp = build_prefix [OF assms, where n = "2 ^ h" and os = os and s = ?s, simplified]
  show "length (build_searchtree h os input sz t) = searchtree_size h"
    using bp assms by (simp add: build_searchtree_def searchtree_width_def)
  show lf: "leaf h (build_searchtree h os input sz t) b = ?s ! (b * os)" if "b < 2 ^ h" for b
    using bp that by (simp add: build_searchtree_def searchtree_width_def leaf_def)
  assume lj: "l < h" "j < 2 ^ l"
  let ?idx = "(2 * j + 1) * 2 ^ (h - l - 1)"
  have "(2 * j + 1) * 2 ^ (h - l - 1) < 2 ^ (l + 1) * (2::nat) ^ (h - l - 1)"
    using lj(2) by (simp only: mult_less_cancel2) simp
  moreover have "l + 1 + (h - l - 1) = h" using lj(1) by simp
  then have "(2::nat) ^ (l + 1) * 2 ^ (h - l - 1) = 2 ^ h" by (simp only: power_add[symmetric])
  ultimately have lt: "?idx < 2 ^ h" by simp
  have pos: "0 < ?idx" by simp
  have "build_searchtree h os input sz t ! tree_pos h ?idx = ?s ! (?idx * os)"
    using bp lt pos by (simp add: build_searchtree_def searchtree_width_def)
  then show "build_searchtree h os input sz t ! (2 ^ l - 1 + j)
             = leaf h (build_searchtree h os input sz t) ?idx"
    using tree_pos_level [OF lj] lf [OF lt] by simp
qed

lemma traverse_bounds:
  fixes s :: "nat \<Rightarrow> 'a::linorder"
  assumes T: "\<And>l j. l < h \<Longrightarrow> j < 2 ^ l \<Longrightarrow>
                 sh_tree ! (2 ^ l - 1 + j) = s ((2 * j + 1) * 2 ^ (h - l - 1))"
  shows "k \<le> h \<Longrightarrow> j < 2 ^ (h - k) \<Longrightarrow>
         (0 < j \<longrightarrow> s (j * 2 ^ k) \<le> el) \<Longrightarrow>
         (j + 1 < 2 ^ (h - k) \<longrightarrow> el < s ((j + 1) * 2 ^ k)) \<Longrightarrow>
         \<exists>b. traverse sh_tree el k (2 ^ (h - k) - 1 + j) = 2 ^ h - 1 + b \<and> b < 2 ^ h \<and>
             (0 < b \<longrightarrow> s b \<le> el) \<and> (b + 1 < 2 ^ h \<longrightarrow> el < s (b + 1))"
proof (induction k arbitrary: j)
  case 0
  then show ?case by auto
next
  case (Suc k)
  define l where "l = h - Suc k"
  have l: "l < h" "h - l - 1 = k" "h - k = l + 1" using Suc.prems(1) by (simp_all add: l_def)
  have j: "j < 2 ^ l" using Suc.prems(2) by (simp add: l_def)
  define mid where "mid = (2 * j + 1) * 2 ^ k"
  have node: "sh_tree ! (2 ^ l - 1 + j) = s mid" using T [OF l(1) j] l(2) by (simp add: mid_def)
  define c :: nat where "c = (if \<not> (el < s mid) then 1 else 0)"
  obtain m where m: "(2::nat) ^ l = Suc m" by (cases "(2::nat) ^ l") simp_all
  have nxt: "2 * (2 ^ l - 1 + j) + 1 + c = 2 ^ (h - k) - 1 + (2 * j + c)"
    unfolding l(3) by (simp add: m)
  have step: "traverse sh_tree el (Suc k) (2 ^ (h - Suc k) - 1 + j)
            = traverse sh_tree el k (2 ^ (h - k) - 1 + (2 * j + c))"
    using node nxt unfolding l_def [symmetric] by (simp add: c_def Let_def)
  have kh: "k \<le> h" using Suc.prems(1) by simp
  have j': "2 * j + c < 2 ^ (h - k)" using j unfolding l(3) c_def by simp
  have lo: "0 < 2 * j + c \<longrightarrow> s ((2 * j + c) * 2 ^ k) \<le> el"
  proof (cases "el < s mid")
    case True
    then have "c = 0" by (simp add: c_def)
    then show ?thesis using Suc.prems(3) by (simp add: mult.assoc mult.commute)
  next
    case False
    then have "c = 1" by (simp add: c_def)
    then show ?thesis using False by (simp add: mid_def)
  qed
  have hi: "2 * j + c + 1 < 2 ^ (h - k) \<longrightarrow> el < s ((2 * j + c + 1) * 2 ^ k)"
  proof (cases "el < s mid")
    case True
    then have "c = 0" by (simp add: c_def)
    then show ?thesis using True by (simp add: mid_def)
  next
    case False
    then have c1: "c = 1" by (simp add: c_def)
    have "(2 * j + c + 1) * 2 ^ k = (j + 1) * 2 ^ Suc k" using c1 by simp
    moreover have "2 * j + c + 1 < 2 ^ (h - k) \<longrightarrow> j + 1 < 2 ^ (h - Suc k)"
      using c1 unfolding l(3) l_def [symmetric] by simp
    ultimately show ?thesis using Suc.prems(4) by (simp del: power_Suc)
  qed
  from Suc.IH [OF kh j' lo hi] show ?case unfolding step .
qed

lemma bucket_of_bounds:
  fixes tree :: "'a::linorder list"
  assumes T: "\<And>l j. l < h \<Longrightarrow> j < 2 ^ l \<Longrightarrow>
                 tree ! (2 ^ l - 1 + j) = leaf h tree ((2 * j + 1) * 2 ^ (h - l - 1))"
      and len: "searchtree_inner_size h \<le> length tree"
  shows "bucket_of h (take (searchtree_inner_size h) tree) el < 2 ^ h"
    and "0 < bucket_of h (take (searchtree_inner_size h) tree) el \<Longrightarrow>
           leaf h tree (bucket_of h (take (searchtree_inner_size h) tree) el) \<le> el"
    and "bucket_of h (take (searchtree_inner_size h) tree) el + 1 < 2 ^ h \<Longrightarrow>
           el < leaf h tree (bucket_of h (take (searchtree_inner_size h) tree) el + 1)"
proof -
  let ?sh = "take (searchtree_inner_size h) tree"
  have inner: "searchtree_inner_size h = 2 ^ h - 1"
    by (simp add: searchtree_inner_size_def searchtree_width_def)
  have T': "?sh ! (2 ^ l - 1 + j) = leaf h tree ((2 * j + 1) * 2 ^ (h - l - 1))"
    if "l < h" "j < 2 ^ l" for l j
  proof -
    have "(2::nat) ^ (l + 1) \<le> 2 ^ h" using that(1) by (intro power_increasing) simp_all
    then have "2 ^ l - 1 + j < searchtree_inner_size h" using that(2) inner by simp
    then show ?thesis using T [OF that] by simp
  qed
  from traverse_bounds [where s = "leaf h tree" and sh_tree = ?sh and h = h and k = h
      and j = 0 and el = el, OF T']
  obtain b where b: "traverse ?sh el h 0 = 2 ^ h - 1 + b" "b < 2 ^ h"
      "0 < b \<longrightarrow> leaf h tree b \<le> el" "b + 1 < 2 ^ h \<longrightarrow> el < leaf h tree (b + 1)"
    by auto
  have "bucket_of h ?sh el = b" using b(1) by (simp add: bucket_of_def inner)
  then show "bucket_of h ?sh el < 2 ^ h"
    and "0 < bucket_of h ?sh el \<Longrightarrow> leaf h tree (bucket_of h ?sh el) \<le> el"
    and "bucket_of h ?sh el + 1 < 2 ^ h \<Longrightarrow> el < leaf h tree (bucket_of h ?sh el + 1)"
    using b by simp_all
qed

definition count_item ::
  "nat \<Rightarrow> 'a::{abs,ord} list \<Rightarrow> 'a list \<Rightarrow> nat \<Rightarrow> nat list \<times> nat list
     \<Rightarrow> nat list \<times> nat list" where
  "count_item h sh_tree input i st =
     (case st of (sh_counter, oracles) \<Rightarrow>
        let el = abs (input ! i);
            bucket = bucket_of h sh_tree el
        in (sh_counter[bucket := sh_counter ! bucket + 1], oracles[i := bucket mod 256]))"

definition count_block ::
  "nat \<Rightarrow> nat \<Rightarrow> nat \<Rightarrow> nat \<Rightarrow> 'a::{abs,ord} list \<Rightarrow> nat \<Rightarrow> 'a list
     \<Rightarrow> (nat \<Rightarrow> nat \<Rightarrow> 'a) \<Rightarrow> (nat \<Rightarrow> nat \<Rightarrow> nat) \<Rightarrow> nat
     \<Rightarrow> nat list \<times> nat list \<Rightarrow> nat list \<times> nat list" where
  "count_block h bs ipt nb input sz tree sh_tree_init sh_counter_init blk st =
     (case st of (counter, oracles) \<Rightarrow>
        let sh_tree =
              fold (\<lambda>t sh. if t < searchtree_inner_size h then sh[t := tree ! t] else sh)
                   [0..<bs] (map (sh_tree_init blk) [0..<searchtree_inner_size h]);
            sh_counter0 =
              fold (\<lambda>t c. if t < searchtree_width h then c[t := 0] else c)
                   [0..<bs] (map (sh_counter_init blk) [0..<searchtree_width h]);
            begin = bs * blk * ipt;
            block_end = bs * (blk + 1) * ipt;
            end = min block_end sz;
            (sh_counter, oracles') =
               fold (count_item h sh_tree input) [begin..<end] (sh_counter0, oracles)
        in (fold (\<lambda>t c. if t < searchtree_width h then c[blk + t * nb := sh_counter ! t]
                          else c)
                 [0..<bs] counter,
            oracles'))"

definition count_buckets ::
  "nat \<Rightarrow> nat \<Rightarrow> nat \<Rightarrow> nat \<Rightarrow> 'a::{abs,ord} list \<Rightarrow> nat \<Rightarrow> 'a list
     \<Rightarrow> (nat \<Rightarrow> nat \<Rightarrow> 'a) \<Rightarrow> (nat \<Rightarrow> nat \<Rightarrow> nat)
     \<Rightarrow> nat list \<Rightarrow> nat list \<Rightarrow> nat list \<times> nat list" where
  "count_buckets h bs ipt nb input sz tree sh_tree_init sh_counter_init counter oracles =
     fold (count_block h bs ipt nb input sz tree sh_tree_init sh_counter_init)
          [0..<nb] (counter, oracles)"

lemma bitonic_sort_sort:
  fixes xs :: "'a::linorder list"
  shows "bitonic_sort xs = sort xs"
proof -
  have i: "insert_sample x ys = insort x ys" for x :: 'a and ys
    by (induction ys) simp_all
  show ?thesis
    by (induction xs) (simp_all add: bitonic_sort_def i)
qed

text \<open>The rounding of the stride shows in the sample positions: with 14 samples of an
  input of size 122, sample 7 is read at position 60, where the exact quotient gives 61.\<close>

lemma sample_index_rounded:
  "sample_index 1 7 122 7 = 60" "(7 * 122) div sample_size 1 7 = 61"
  by code_simp+


lemma fold_count_item:
  assumes "\<forall>i \<in> set is. i < length orc"
      and "\<forall>i \<in> set is. bucket_of h sh (abs (input ! i)) < length c"
  shows "length (fst (fold (count_item h sh input) is (c, orc))) = length c \<and>
         length (snd (fold (count_item h sh input) is (c, orc))) = length orc \<and>
         (\<forall>b < length c. fst (fold (count_item h sh input) is (c, orc)) ! b
              = c ! b + length (filter (\<lambda>i. bucket_of h sh (abs (input ! i)) = b) is)) \<and>
         (\<forall>i. snd (fold (count_item h sh input) is (c, orc)) ! i
              = (if i \<in> set is then bucket_of h sh (abs (input ! i)) mod 256 else orc ! i))"
  using assms
proof (induction "is" arbitrary: c orc)
  case Nil
  show ?case by simp
next
  case (Cons a "is")
  let ?bk = "\<lambda>i. bucket_of h sh (abs (input ! i))"
  let ?c1 = "c[?bk a := c ! ?bk a + 1]"
  let ?o1 = "orc[a := ?bk a mod 256]"
  have step: "fold (count_item h sh input) (a # is) (c, orc)
            = fold (count_item h sh input) is (?c1, ?o1)"
    by (simp add: count_item_def Let_def)
  have p1: "\<forall>i \<in> set is. i < length ?o1" using Cons.prems(1) by simp
  have p2: "\<forall>i \<in> set is. ?bk i < length ?c1" using Cons.prems(2) by simp
  note IH = Cons.IH [OF p1 p2]
  have a: "a < length orc" "?bk a < length c" using Cons.prems by simp_all
  show ?case unfolding step
  proof (intro conjI allI impI)
    show "length (fst (fold (count_item h sh input) is (?c1, ?o1))) = length c"
      using IH by simp
    show "length (snd (fold (count_item h sh input) is (?c1, ?o1))) = length orc"
      using IH by simp
  next
    fix b assume b: "b < length c"
    have "fst (fold (count_item h sh input) is (?c1, ?o1)) ! b
        = ?c1 ! b + length (filter (\<lambda>i. ?bk i = b) is)"
      using IH b by simp
    then show "fst (fold (count_item h sh input) is (?c1, ?o1)) ! b
        = c ! b + length (filter (\<lambda>i. ?bk i = b) (a # is))"
      using a b by (cases "?bk a = b") simp_all
  next
    fix i
    have "snd (fold (count_item h sh input) is (?c1, ?o1)) ! i
        = (if i \<in> set is then ?bk i mod 256 else ?o1 ! i)"
      using IH by simp
    then show "snd (fold (count_item h sh input) is (?c1, ?o1)) ! i
        = (if i \<in> set (a # is) then ?bk i mod 256 else orc ! i)"
      using a by (cases "i = a") simp_all
  qed
qed

lemma fold_update_nth:
  assumes "inj_on f (set ts)" "\<forall>t \<in> set ts. f t < length c"
  shows "length (fold (\<lambda>t c. c[f t := g t]) ts c) = length c \<and>
         (\<forall>t \<in> set ts. fold (\<lambda>t c. c[f t := g t]) ts c ! f t = g t) \<and>
         (\<forall>p. p \<notin> f ` set ts \<longrightarrow> fold (\<lambda>t c. c[f t := g t]) ts c ! p = c ! p)"
  using assms
proof (induction ts arbitrary: c)
  case Nil
  show ?case by simp
next
  case (Cons a ts)
  let ?c1 = "c[f a := g a]"
  let ?F = "fold (\<lambda>t c. c[f t := g t])"
  have inj: "inj_on f (set ts)" and len: "\<forall>t \<in> set ts. f t < length ?c1"
    using Cons.prems by simp_all
  note IH = Cons.IH [OF inj len]
  have step: "?F (a # ts) c = ?F ts ?c1" by simp
  have fa: "f a < length c" using Cons.prems(2) by simp
  show ?case unfolding step
  proof (intro conjI ballI allI impI)
    show "length (?F ts ?c1) = length c" using IH by simp
  next
    fix t assume t: "t \<in> set (a # ts)"
    show "?F ts ?c1 ! f t = g t"
    proof (cases "t \<in> set ts")
      case True
      then show ?thesis using IH by simp
    next
      case False
      then have ta: "t = a" using t by simp
      have "f a \<notin> f ` set ts"
      proof
        assume "f a \<in> f ` set ts"
        then obtain u where u: "u \<in> set ts" "f a = f u" by auto
        then have "a = u" using Cons.prems(1) by (auto simp: inj_on_def)
        then show False using u False ta by simp
      qed
      then have "?F ts ?c1 ! f a = ?c1 ! f a" using IH by blast
      then show ?thesis using ta fa by simp
    qed
  next
    fix p assume p: "p \<notin> f ` set (a # ts)"
    then have "p \<notin> f ` set ts" "p \<noteq> f a" by auto
    then show "?F ts ?c1 ! p = c ! p" using IH by simp
  qed
qed

definition block_range :: "nat \<Rightarrow> nat \<Rightarrow> nat \<Rightarrow> nat \<Rightarrow> nat list" where
  "block_range bs ipt sz blk = [bs * blk * ipt ..< min (bs * (blk + 1) * ipt) sz]"

lemma grid_pos_eq:
  assumes "a < (nb::nat)" "b < nb" "a + t * nb = b + u * nb"
  shows "a = b \<and> t = u"
proof -
  have "(a + t * nb) mod nb = (b + u * nb) mod nb" using assms(3) by simp
  then have ab: "a = b" using assms(1,2) by simp
  then have "t * nb = u * nb" using assms(3) by simp
  then show ?thesis using ab assms(1) by simp
qed

definition bucket_id :: "nat \<Rightarrow> 'a::{abs,ord} list \<Rightarrow> 'a list \<Rightarrow> nat \<Rightarrow> nat" where
  "bucket_id h tree input i =
     bucket_of h (take (searchtree_inner_size h) tree) (abs (input ! i))"

text \<open>Under the launch contract \<open>searchtree_width \<le> bs\<close> every guarded thread exists:
  the shared tree is the inner part of the tree, the shared counters start at zero, and
  all counters are written back.\<close>

lemma guarded_fold:
  assumes "n \<le> bs"
  shows "fold (\<lambda>t s. if t < n then g t s else s) [0..<bs] s = fold g [0..<n] s"
proof -
  have sp: "[0..<bs] = [0..<n] @ [n..<bs]"
    using assms upt_add_eq_append [of 0 n "bs - n"] by simp
  have a: "fold (\<lambda>t s. if t < n then g t s else s) [0..<n] s = fold g [0..<n] s"
    by (rule fold_cong) simp_all
  have b: "fold (\<lambda>t s. if t < n then g t s else s) [n..<bs] = id"
    by (rule fold_id) auto
  show ?thesis unfolding sp fold_append by (simp add: a b)
qed

lemma fold_fill:
  assumes "length s = n"
  shows "fold (\<lambda>t s. s[t := f t]) [0..<n] s = map f [0..<n]"
proof -
  have inj: "inj_on (\<lambda>t. t) (set [0..<n])" by simp
  have len: "\<forall>t \<in> set [0..<n]. t < length s" using assms by simp
  note fu = fold_update_nth [OF inj len, where g = f]
  show ?thesis
  proof (rule nth_equalityI)
    show "length (fold (\<lambda>t s. s[t := f t]) [0..<n] s) = length (map f [0..<n])"
      using fu assms by simp
  next
    fix i assume "i < length (fold (\<lambda>t s. s[t := f t]) [0..<n] s)"
    then have "i < n" using fu assms by simp
    then show "fold (\<lambda>t s. s[t := f t]) [0..<n] s ! i = map f [0..<n] ! i"
      using fu by simp
  qed
qed

lemma count_block_launched:
  assumes W: "searchtree_width h \<le> bs"
      and T: "searchtree_inner_size h \<le> length tree"
  shows "count_block h bs ipt nb input sz tree ti ci blk (counter, orc)
     = (fold (\<lambda>t c. c[blk + t * nb :=
                 fst (fold (count_item h (take (searchtree_inner_size h) tree) input)
                        (block_range bs ipt sz blk) (replicate (searchtree_width h) 0, orc)) ! t])
             [0..<searchtree_width h] counter,
        snd (fold (count_item h (take (searchtree_inner_size h) tree) input)
               (block_range bs ipt sz blk) (replicate (searchtree_width h) 0, orc)))"
proof -
  let ?inner = "searchtree_inner_size h" and ?W = "searchtree_width h"
  have I: "?inner \<le> bs" using W by (simp add: searchtree_inner_size_def)
  have "fold (\<lambda>t sh. if t < ?inner then sh[t := tree ! t] else sh) [0..<bs]
           (map (ti blk) [0..<?inner]) = map ((!) tree) [0..<?inner]"
    unfolding guarded_fold [OF I] by (rule fold_fill) simp
  also have "\<dots> = take ?inner tree"
    using T by (intro nth_equalityI) simp_all
  finally have t: "fold (\<lambda>t sh. if t < ?inner then sh[t := tree ! t] else sh) [0..<bs]
           (map (ti blk) [0..<?inner]) = take ?inner tree" .
  have "fold (\<lambda>t c. if t < ?W then c[t := 0] else c) [0..<bs] (map (ci blk) [0..<?W])
          = map (\<lambda>t. 0) [0..<?W]"
    unfolding guarded_fold [OF W] by (rule fold_fill) simp
  also have "\<dots> = replicate ?W 0" by (simp add: map_replicate_const)
  finally have c: "fold (\<lambda>t c. if t < ?W then c[t := 0] else c) [0..<bs]
          (map (ci blk) [0..<?W]) = replicate ?W 0" .
  show ?thesis
    unfolding count_block_def t c
    unfolding guarded_fold [OF W]
    by (simp add: Let_def block_range_def case_prod_beta)
qed

lemma count_block_props:
  fixes input :: "'a::{abs,linorder} list"
  assumes BK: "\<And>i. bucket_id h tree input i < 2 ^ h"
      and W: "searchtree_width h \<le> bs"
      and T: "searchtree_inner_size h \<le> length tree"
      and blk: "blk < nb"
      and lo: "sz \<le> length orc"
      and lc: "nb * 2 ^ h \<le> length counter"
  shows "length (fst (count_block h bs ipt nb input sz tree ti ci blk (counter, orc))) = length counter"
    and "length (snd (count_block h bs ipt nb input sz tree ti ci blk (counter, orc))) = length orc"
    and "\<And>t. t < 2 ^ h \<Longrightarrow>
           fst (count_block h bs ipt nb input sz tree ti ci blk (counter, orc)) ! (blk + t * nb)
             = length (filter (\<lambda>i. bucket_id h tree input i = t) (block_range bs ipt sz blk))"
    and "\<And>b t. b \<noteq> blk \<Longrightarrow> b < nb \<Longrightarrow>
           fst (count_block h bs ipt nb input sz tree ti ci blk (counter, orc)) ! (b + t * nb)
             = counter ! (b + t * nb)"
    and "\<And>i. snd (count_block h bs ipt nb input sz tree ti ci blk (counter, orc)) ! i
             = (if i \<in> set (block_range bs ipt sz blk) then bucket_id h tree input i mod 256
                else orc ! i)"
proof -
  let ?sh = "take (searchtree_inner_size h) tree"
  let ?rng = "block_range bs ipt sz blk"
  let ?c0 = "replicate (2 ^ h) (0::nat)"
  let ?res = "fold (count_item h ?sh input) ?rng (?c0, orc)"
  have r1: "\<forall>i \<in> set ?rng. i < length orc" using lo by (auto simp: block_range_def)
  have r2: "\<forall>i \<in> set ?rng. bucket_of h ?sh (abs (input ! i)) < length ?c0"
    using BK by (simp add: bucket_id_def)
  note fc = fold_count_item [OF r1 r2]
  let ?f = "\<lambda>t. blk + t * nb"
  let ?g = "\<lambda>t. fst ?res ! t"
  have cb: "count_block h bs ipt nb input sz tree ti ci blk (counter, orc)
      = (fold (\<lambda>t c. c[?f t := ?g t]) [0..<2 ^ h] counter, snd ?res)"
    unfolding count_block_launched [OF W T] by (simp add: searchtree_width_def)
  have inj: "inj_on ?f (set [0..<2 ^ h])"
    using blk by (auto simp: inj_on_def)
  have len: "\<forall>t \<in> set [0..<2 ^ h]. ?f t < length counter"
  proof
    fix t assume "t \<in> set [0..<2 ^ h]"
    then have "t + 1 \<le> 2 ^ h" by simp
    then have "(t + 1) * nb \<le> 2 ^ h * nb" by (rule mult_le_mono1)
    then show "?f t < length counter" using blk lc by (simp add: mult.commute)
  qed
  note fu = fold_update_nth [OF inj len, where g = ?g]
  show "length (fst (count_block h bs ipt nb input sz tree ti ci blk (counter, orc))) = length counter"
    using fu unfolding cb by simp
  show "length (snd (count_block h bs ipt nb input sz tree ti ci blk (counter, orc))) = length orc"
    using fc unfolding cb by simp
  show "fst (count_block h bs ipt nb input sz tree ti ci blk (counter, orc)) ! (blk + t * nb)
          = length (filter (\<lambda>i. bucket_id h tree input i = t) ?rng)" if "t < 2 ^ h" for t
  proof -
    have "fst (count_block h bs ipt nb input sz tree ti ci blk (counter, orc)) ! (blk + t * nb) = ?g t"
      using fu that unfolding cb by simp
    also have "\<dots> = length (filter (\<lambda>i. bucket_id h tree input i = t) ?rng)"
      using fc that by (simp add: bucket_id_def)
    finally show ?thesis .
  qed
  show "fst (count_block h bs ipt nb input sz tree ti ci blk (counter, orc)) ! (b + t * nb)
          = counter ! (b + t * nb)" if "b \<noteq> blk" "b < nb" for b t
  proof -
    have "b + t * nb \<notin> ?f ` set [0..<2 ^ h]"
      using grid_pos_eq [OF that(2) blk] that(1) by auto
    then show ?thesis using fu unfolding cb by simp
  qed
  show "snd (count_block h bs ipt nb input sz tree ti ci blk (counter, orc)) ! i
          = (if i \<in> set ?rng then bucket_id h tree input i mod 256 else orc ! i)" for i
    using fc unfolding cb by (simp add: bucket_id_def)
qed

lemma block_range_append:
  "[0..<min sz (n * (bs * ipt))] @ block_range bs ipt sz n = [0..<min sz (Suc n * (bs * ipt))]"
proof -
  have e: "bs * n * ipt = n * (bs * ipt)" "bs * (n + 1) * ipt = Suc n * (bs * ipt)"
    by (simp_all add: algebra_simps)
  show ?thesis
  proof (cases "sz \<le> n * (bs * ipt)")
    case True
    then show ?thesis unfolding block_range_def e by simp
  next
    case False
    then have m: "min sz (n * (bs * ipt)) = n * (bs * ipt)" by simp
    have le: "n * (bs * ipt) \<le> min (Suc n * (bs * ipt)) sz" using False by simp
    then obtain k where k: "min (Suc n * (bs * ipt)) sz = n * (bs * ipt) + k"
      using le_Suc_ex by blast
    have "[0..<n * (bs * ipt) + k] = [0..<n * (bs * ipt)] @ [n * (bs * ipt)..<n * (bs * ipt) + k]"
      by (rule upt_add_eq_append) simp
    then show ?thesis unfolding block_range_def e m k [symmetric]
      by (simp only: min.commute)
  qed
qed

lemma count_buckets_prefix:
  fixes input :: "'a::{abs,linorder} list"
  assumes BK: "\<And>i. bucket_id h tree input i < 2 ^ h"
      and W: "searchtree_width h \<le> bs"
      and T: "searchtree_inner_size h \<le> length tree"
      and lo: "sz \<le> length orc"
      and lc: "nb * 2 ^ h \<le> length counter"
  shows "n \<le> nb \<Longrightarrow>
     length (fst (fold (count_block h bs ipt nb input sz tree ti ci) [0..<n] (counter, orc)))
        = length counter \<and>
     length (snd (fold (count_block h bs ipt nb input sz tree ti ci) [0..<n] (counter, orc)))
        = length orc \<and>
     (\<forall>blk < n. \<forall>t < 2 ^ h.
        fst (fold (count_block h bs ipt nb input sz tree ti ci) [0..<n] (counter, orc)) ! (blk + t * nb)
          = length (filter (\<lambda>i. bucket_id h tree input i = t) (block_range bs ipt sz blk))) \<and>
     (\<forall>i. snd (fold (count_block h bs ipt nb input sz tree ti ci) [0..<n] (counter, orc)) ! i
          = (if i < min sz (n * (bs * ipt)) then bucket_id h tree input i mod 256 else orc ! i))"
proof (induction n)
  case 0
  show ?case by simp
next
  case (Suc n)
  define st where "st = fold (count_block h bs ipt nb input sz tree ti ci) [0..<n] (counter, orc)"
  have n: "n < nb" using Suc.prems by simp
  have IH: "length (fst st) = length counter" "length (snd st) = length orc"
    "\<And>blk t. blk < n \<Longrightarrow> t < 2 ^ h \<Longrightarrow> fst st ! (blk + t * nb)
          = length (filter (\<lambda>i. bucket_id h tree input i = t) (block_range bs ipt sz blk))"
    "\<And>i. snd st ! i
          = (if i < min sz (n * (bs * ipt)) then bucket_id h tree input i mod 256 else orc ! i)"
    using Suc.IH n unfolding st_def by simp_all
  have step: "fold (count_block h bs ipt nb input sz tree ti ci) [0..<Suc n] (counter, orc)
      = count_block h bs ipt nb input sz tree ti ci n (fst st, snd st)"
    unfolding st_def by simp
  have lo': "sz \<le> length (snd st)" and lc': "nb * 2 ^ h \<le> length (fst st)"
    using IH lo lc by simp_all
  note cb = count_block_props [OF BK W T n lo' lc', where ipt = ipt and ti = ti and ci = ci]
  have mem: "(i \<in> set (block_range bs ipt sz n) \<or> i < min sz (n * (bs * ipt)))
           = (i < min sz (Suc n * (bs * ipt)))" for i
  proof -
    have "set [0..<min sz (n * (bs * ipt))] \<union> set (block_range bs ipt sz n)
        = set [0..<min sz (Suc n * (bs * ipt))]"
      using block_range_append [of sz n bs ipt] by (metis set_append)
    then show ?thesis by (auto simp del: mult_Suc)
  qed
  show ?case unfolding step
  proof (intro conjI allI impI)
    show "length (fst (count_block h bs ipt nb input sz tree ti ci n (fst st, snd st))) = length counter"
      using cb(1) IH(1) by simp
    show "length (snd (count_block h bs ipt nb input sz tree ti ci n (fst st, snd st))) = length orc"
      using cb(2) IH(2) by simp
  next
    fix blk t assume b: "blk < Suc n" and t: "t < (2::nat) ^ h"
    show "fst (count_block h bs ipt nb input sz tree ti ci n (fst st, snd st)) ! (blk + t * nb)
          = length (filter (\<lambda>i. bucket_id h tree input i = t) (block_range bs ipt sz blk))"
    proof (cases "blk = n")
      case True
      then show ?thesis using cb(3) [OF t] by simp
    next
      case False
      then have lt: "blk < n" using b by simp
      then have "blk < nb" using n by simp
      then show ?thesis using cb(4) [OF False] IH(3) [OF lt t] by simp
    qed
  next
    fix i
    show "snd (count_block h bs ipt nb input sz tree ti ci n (fst st, snd st)) ! i
          = (if i < min sz (Suc n * (bs * ipt)) then bucket_id h tree input i mod 256
             else orc ! i)"
      using cb(5) [of i] IH(4) [of i] mem [of i] by (auto simp del: mult_Suc)
  qed
qed

lemma block_counts_sum:
  "(\<Sum>blk < n. length (filter P (block_range bs ipt sz blk)))
     = length (filter P [0..<min sz (n * (bs * ipt))])"
proof (induction n)
  case 0
  show ?case by simp
next
  case (Suc n)
  have "length (filter P [0..<min sz (Suc n * (bs * ipt))])
      = length (filter P ([0..<min sz (n * (bs * ipt))] @ block_range bs ipt sz n))"
    by (simp only: block_range_append)
  then show ?case using Suc by (simp del: mult_Suc)
qed

lemma bucket_id_built:
  fixes input :: "'a::{abs,linorder} list" and sinput :: "'a list" and os ssz :: nat
    and t0 :: "'a list" and h :: nat
  assumes "length t0 = searchtree_size h"
  defines "tree \<equiv> build_searchtree h os sinput ssz t0"
  shows "bucket_id h tree input i < 2 ^ h"
    and "0 < bucket_id h tree input i \<Longrightarrow>
           leaf h tree (bucket_id h tree input i) \<le> abs (input ! i)"
    and "bucket_id h tree input i + 1 < 2 ^ h \<Longrightarrow>
           abs (input ! i) < leaf h tree (bucket_id h tree input i + 1)"
proof -
  note lay = build_searchtree_layout [OF assms(1), where os = os and input = sinput and sz = ssz]
  have T: "\<And>l j. l < h \<Longrightarrow> j < 2 ^ l \<Longrightarrow>
            tree ! (2 ^ l - 1 + j) = leaf h tree ((2 * j + 1) * 2 ^ (h - l - 1))"
    unfolding tree_def using lay(3) by blast
  have len: "searchtree_inner_size h \<le> length tree"
    unfolding tree_def using lay(1) by (simp add: searchtree_size_def)
  note bb = bucket_of_bounds [where h = h and tree = tree and el = "abs (input ! i)", OF T len]
  show "bucket_id h tree input i < 2 ^ h"
    unfolding bucket_id_def by (rule bb(1))
  show "0 < bucket_id h tree input i \<Longrightarrow>
           leaf h tree (bucket_id h tree input i) \<le> abs (input ! i)"
    unfolding bucket_id_def by (rule bb(2))
  show "bucket_id h tree input i + 1 < 2 ^ h \<Longrightarrow>
           abs (input ! i) < leaf h tree (bucket_id h tree input i + 1)"
    unfolding bucket_id_def by (rule bb(3))
qed

lemma count_buckets_result:
  fixes input :: "'a::{abs,linorder} list"
  assumes BK: "\<And>i. bucket_id h tree input i < 2 ^ h"
      and W: "searchtree_width h \<le> bs"
      and T: "searchtree_inner_size h \<le> length tree"
      and h8: "h \<le> 8"
      and grid: "sz \<le> nb * (bs * ipt)"
      and lo: "sz \<le> length orc"
      and lc: "nb * 2 ^ h \<le> length counter"
  shows "\<And>i. i < sz \<Longrightarrow>
           snd (count_buckets h bs ipt nb input sz tree ti ci counter orc) ! i = bucket_id h tree input i"
    and "\<And>b. b < 2 ^ h \<Longrightarrow>
           (\<Sum>blk < nb. fst (count_buckets h bs ipt nb input sz tree ti ci counter orc) ! (blk + b * nb))
             = length (filter (\<lambda>i. bucket_id h tree input i = b) [0..<sz])"
    and "\<And>blk b. blk < nb \<Longrightarrow> b < 2 ^ h \<Longrightarrow>
           fst (count_buckets h bs ipt nb input sz tree ti ci counter orc) ! (blk + b * nb)
             = length (filter (\<lambda>i. bucket_id h tree input i = b) (block_range bs ipt sz blk))"
    and "length (snd (count_buckets h bs ipt nb input sz tree ti ci counter orc)) = length orc"
    and "length (fst (count_buckets h bs ipt nb input sz tree ti ci counter orc)) = length counter"
proof -
  have m: "min sz (nb * (bs * ipt)) = sz" using grid by simp
  have nbnb: "nb \<le> nb" by simp
  note cp = count_buckets_prefix [OF BK W T lo lc nbnb, where ipt = ipt and ti = ti and ci = ci,
      folded count_buckets_def, unfolded m]
  have "(2::nat) ^ h \<le> 2 ^ 8" using h8 by (intro power_increasing) simp_all
  then have small: "bucket_id h tree input i mod 256 = bucket_id h tree input i" for i
    using BK [of i] by simp
  show "snd (count_buckets h bs ipt nb input sz tree ti ci counter orc) ! i = bucket_id h tree input i"
    if "i < sz" for i
    using cp that small by simp
  show blk: "fst (count_buckets h bs ipt nb input sz tree ti ci counter orc) ! (blk + b * nb)
             = length (filter (\<lambda>i. bucket_id h tree input i = b) (block_range bs ipt sz blk))"
    if "blk < nb" "b < 2 ^ h" for blk b
    using cp that by simp
  show "(\<Sum>blk < nb. fst (count_buckets h bs ipt nb input sz tree ti ci counter orc) ! (blk + b * nb))
             = length (filter (\<lambda>i. bucket_id h tree input i = b) [0..<sz])"
    if "b < 2 ^ h" for b
  proof -
    have "(\<Sum>blk < nb. fst (count_buckets h bs ipt nb input sz tree ti ci counter orc) ! (blk + b * nb))
        = (\<Sum>blk < nb. length (filter (\<lambda>i. bucket_id h tree input i = b)
                                     (block_range bs ipt sz blk)))"
      using blk that by (intro sum.cong) simp_all
    then show ?thesis
      using block_counts_sum [where bs = bs and ipt = ipt and sz = sz and n = nb] m by simp
  qed
  show "length (snd (count_buckets h bs ipt nb input sz tree ti ci counter orc)) = length orc"
    using cp by simp
  show "length (fst (count_buckets h bs ipt nb input sz tree ti ci counter orc)) = length counter"
    using cp by simp
qed

text \<open>
  Claim C8, as the specification states it, for every element of every input array: in
  the array \<open>[1, 2, NaN]\<close> of floating-point values, classified with the tree of height 1
  that \<open>build_searchtree\<close> builds from it (the samples are the elements 1 and 2, the
  leaves are 1 and 2), the element NaN is recorded in bucket 1, and the leaf of bucket 1
  is not below or equal to its magnitude. The launch has one block of two threads.
\<close>

theorem count_buckets_nan_counterexample:
  "(let input = [Fin 1, Fin 2, NaN];
        tree = build_searchtree 1 1 input 3 (replicate 3 (Fin 0));
        res = count_buckets 1 2 2 1 input 3 tree (\<lambda>blk t. Fin 0) (\<lambda>blk t. 0)
                (replicate 2 0) (replicate 3 0);
        b = snd res ! 2
    in tree = [Fin 2, Fin 1, Fin 2] \<and> b = 1 \<and> \<not> leaf 1 tree b \<le> abs (input ! 2))"
  by code_simp

text \<open>
  Claim C8, amended. Let the magnitudes be linearly ordered (no NaN), and let the kernel
  be launched within its contract, with at least \<open>searchtree_width\<close> threads per block.
  For a tree produced by \<open>build_searchtree\<close>, \<open>count_buckets\<close> records for
  every input element a bucket \<open>b\<close> in the oracle array whose leaf splitters bound the
  magnitude of the element: \<open>leaf b \<le> |e| < leaf (b + 1)\<close>, where the lower bound is
  absent for bucket 0 and the upper bound is absent for the last bucket; and the element
  is counted, the block counters of bucket \<open>b\<close> adding up to the number of elements with
  oracle \<open>b\<close>. The oracle is one byte, hence \<open>h \<le> 8\<close>; the grid covers the input and
  the arrays are large enough. The contents of the shared arrays at the start of a block
  are arbitrary.
\<close>

theorem count_buckets_classifies:
  fixes input :: "'a::{abs,linorder} list"
  assumes "length t0 = searchtree_size h"
      and "h \<le> 8"
      and "searchtree_width h \<le> bs"
      and "sz \<le> nb * (bs * ipt)"
      and "sz \<le> length oracles"
      and "nb * searchtree_width h \<le> length counter"
      and "i < sz"
  shows "let tree = build_searchtree h os sinput ssz t0;
             res = count_buckets h bs ipt nb input sz tree sh_tree_init sh_counter_init
                     counter oracles;
             b = snd res ! i
         in b < searchtree_width h \<and>
            (0 < b \<longrightarrow> leaf h tree b \<le> abs (input ! i)) \<and>
            (b + 1 < searchtree_width h \<longrightarrow> abs (input ! i) < leaf h tree (b + 1)) \<and>
            (\<Sum>blk < nb. fst res ! (blk + b * nb))
               = length (filter (\<lambda>k. snd res ! k = b) [0..<sz])"
proof -
  define tree where "tree = build_searchtree h os sinput ssz t0"
  define res where "res = count_buckets h bs ipt nb input sz tree sh_tree_init sh_counter_init
                     counter oracles"
  note bi = bucket_id_built [OF assms(1), where os = os and sinput = sinput and ssz = ssz
      and input = input, folded tree_def]
  have lc: "nb * 2 ^ h \<le> length counter" using assms(6) by (simp add: searchtree_width_def)
  have T: "searchtree_inner_size h \<le> length tree"
    unfolding tree_def build_searchtree_layout(1) [OF assms(1)]
    by (simp add: searchtree_size_def)
  note cr = count_buckets_result [OF bi(1) assms(3) T assms(2,4,5) lc,
      where ti = sh_tree_init and ci = sh_counter_init, folded res_def]
  have b: "snd res ! i = bucket_id h tree input i" using cr(1) assms(7) by simp
  have "filter (\<lambda>k. snd res ! k = snd res ! i) [0..<sz]
      = filter (\<lambda>k. bucket_id h tree input k = snd res ! i) [0..<sz]"
    using cr(1) by (intro filter_cong) simp_all
  then have cnt: "(\<Sum>blk < nb. fst res ! (blk + snd res ! i * nb))
      = length (filter (\<lambda>k. snd res ! k = snd res ! i) [0..<sz])"
    using cr(2) [of "snd res ! i"] bi(1) [of i] b by simp
  show ?thesis
    unfolding Let_def tree_def [symmetric] res_def [symmetric]
    using bi(1) [of i] bi(2) [of i] bi(3) [of i] cnt unfolding b
    by (simp add: searchtree_width_def)
qed

text \<open>The theorem at a tree of height 2 built from eight values, classified by two
  blocks of four threads with one item each; the shared arrays hold the values 99 and 7
  when the blocks start.\<close>

theorem count_buckets_classifies_witness:
  "length (replicate 7 (0::int)) = searchtree_size 2 \<and> (2::nat) \<le> 8 \<and>
   searchtree_width 2 \<le> 4 \<and>
   (8::nat) \<le> 2 * (4 * 1) \<and> 8 \<le> length (replicate 8 (0::nat)) \<and>
   2 * searchtree_width 2 \<le> length (replicate 8 (0::nat)) \<and> (5::nat) < 8 \<and>
   (let tree = build_searchtree 2 1 [5, 1, -4, 2, 3, 7, 9, -8 :: int] 8 (replicate 7 0);
        res = count_buckets 2 4 1 2 [5, 1, -4, 2, 3, 7, 9, -8 :: int] 8 tree
                (\<lambda>blk t. 99) (\<lambda>blk t. 7) (replicate 8 0) (replicate 8 0);
        b = snd res ! 5
    in b < searchtree_width 2 \<and>
       (0 < b \<longrightarrow> leaf 2 tree b \<le> abs ([5, 1, -4, 2, 3, 7, 9, -8 :: int] ! 5)) \<and>
       (b + 1 < searchtree_width 2 \<longrightarrow>
           abs ([5, 1, -4, 2, 3, 7, 9, -8 :: int] ! 5) < leaf 2 tree (b + 1)) \<and>
       (\<Sum>blk < 2. fst res ! (blk + b * 2))
          = length (filter (\<lambda>k. snd res ! k = b) [0..<8]))"
proof -
  have h1: "length (replicate 7 (0::int)) = searchtree_size 2"
    by (simp add: searchtree_size_def searchtree_width_def searchtree_inner_size_def)
  have h2: "(2::nat) \<le> 8" by simp
  have h3: "(8::nat) \<le> 2 * (4 * 1)" by simp
  have h4: "8 \<le> length (replicate 8 (0::nat))" by simp
  have h5: "2 * searchtree_width 2 \<le> length (replicate 8 (0::nat))"
    by (simp add: searchtree_width_def)
  have h6: "(5::nat) < 8" by simp
  have h7: "searchtree_width 2 \<le> 4" by (simp add: searchtree_width_def)
  from count_buckets_classifies [OF h1 h2 h7 h3 h4 h5 h6, where os = 1
      and sinput = "[5, 1, -4, 2, 3, 7, 9, -8]" and ssz = 8
      and input = "[5, 1, -4, 2, 3, 7, 9, -8]"
      and sh_tree_init = "\<lambda>blk t. 99" and sh_counter_init = "\<lambda>blk t. 7"]
  show ?thesis using h1 h2 h3 h4 h5 h6 h7 by blast
qed
section \<open>Symbolic Cholesky: counting pass and fill pass\<close>

text \<open>
  Both kernels give one row to one subwarp of \<open>subwarp_size\<close> lanes. A loop that starts at
  \<open>i\<close> and advances by a fixed stride while below \<open>e\<close> visits the indices
  \<open>strided i e step\<close>; the stride is a positive compile-time constant, and the guard on it
  only makes the model total.
\<close>

function strided :: "nat \<Rightarrow> nat \<Rightarrow> nat \<Rightarrow> nat list" where
  "strided i e step = (if i < e \<and> 0 < step then i # strided (i + step) e step else [])"
  by pat_completeness auto
termination
  by (relation "measure (\<lambda>(i, e, step). e - i)") auto

declare strided.simps [simp del]

text \<open>
  The inner loop of the counting pass climbs the elimination forest from \<open>node\<close> while
  the node is below \<open>next_node\<close>, counting the nodes it leaves. Nothing in the kernel
  bounds the climb, so the loop is a partial function: \<open>None\<close> is a climb that never ends.
\<close>

partial_function (option) count_chain :: "nat list \<Rightarrow> nat \<Rightarrow> nat \<Rightarrow> nat \<Rightarrow> nat option" where
  "count_chain postorder_parent node next_node count =
     (if node < next_node
      then count_chain postorder_parent (postorder_parent ! node) next_node (count + 1)
      else Some count)"

declare count_chain.simps [code]

definition next_node_of :: "nat list \<Rightarrow> nat \<Rightarrow> nat \<Rightarrow> nat \<Rightarrow> nat" where
  "next_node_of postorder_cols diag_postorder lower_end nz =
     (if nz < lower_end - 1 then postorder_cols ! (nz + 1) else diag_postorder)"

fun lane_count ::
  "nat list \<Rightarrow> nat list \<Rightarrow> nat \<Rightarrow> nat \<Rightarrow> nat list \<Rightarrow> nat \<Rightarrow> nat option" where
  "lane_count postorder_parent postorder_cols diag_postorder lower_end [] count = Some count"
| "lane_count postorder_parent postorder_cols diag_postorder lower_end (nz # nzs) count =
     (let node = postorder_cols ! nz;
          next_node = next_node_of postorder_cols diag_postorder lower_end nz
      in case count_chain postorder_parent node next_node count of
           None \<Rightarrow> None
         | Some count' \<Rightarrow>
             lane_count postorder_parent postorder_cols diag_postorder lower_end nzs count')"

text \<open>The subwarp reduction with \<open>plus\<close> adds up the lane counts; it has a result only
  when every lane has finished.\<close>

fun reduce_plus :: "nat option list \<Rightarrow> nat option" where
  "reduce_plus [] = Some 0"
| "reduce_plus (None # cs) = None"
| "reduce_plus (Some c # cs) = (case reduce_plus cs of None \<Rightarrow> None | Some t \<Rightarrow> Some (c + t))"

definition symbolic_count_row ::
  "nat \<Rightarrow> nat list \<Rightarrow> nat list \<Rightarrow> nat list \<Rightarrow> nat list \<Rightarrow> nat list \<Rightarrow> nat \<Rightarrow> nat option" where
  "symbolic_count_row subwarp_size row_ptrs lower_ends inv_postorder postorder_cols
       postorder_parent row =
     (let row_begin = row_ptrs ! row;
          diag_postorder = inv_postorder ! row;
          lower_end = lower_ends ! row;
          counts = map (\<lambda>lane. lane_count postorder_parent postorder_cols diag_postorder
                          lower_end (strided (row_begin + lane) lower_end subwarp_size) 0)
                       [0..<subwarp_size]
      in case reduce_plus counts of None \<Rightarrow> None | Some count \<Rightarrow> Some (count + 1))"

text \<open>
  The fill pass. A lane carries \<open>node\<close>, \<open>next_node\<close> and \<open>pred\<close>; \<open>out_base\<close> is the
  same in all lanes. The ballot mask is the list of the lanes' predicates, lane 0 first;
  \<open>popcnt (mask & prefix_mask)\<close> of lane \<open>l\<close> counts the set bits below \<open>l\<close>, that is
  \<open>popcnt (take l mask)\<close>. The writes to \<open>out_cols\<close> are kept as a log of pairs
  (position, value) in the order lane 0 first, so that every position written is visible.
\<close>

type_synonym lane_state = "nat \<times> nat \<times> bool"

definition ballot :: "lane_state list \<Rightarrow> bool list" where
  "ballot lanes = map (\<lambda>(node, next_node, pred). pred) lanes"

definition popcnt :: "bool list \<Rightarrow> nat" where
  "popcnt lane_mask = length (filter (\<lambda>b. b) lane_mask)"

definition fill_round ::
  "nat list \<Rightarrow> nat list \<Rightarrow> lane_state list \<times> nat \<times> (nat \<times> nat) list
     \<Rightarrow> lane_state list \<times> nat \<times> (nat \<times> nat) list" where
  "fill_round postorder postorder_parent st =
     (case st of (lanes, out_base, writes) \<Rightarrow>
        let lane_mask = ballot lanes;
            new_writes = concat (map (\<lambda>lane.
                 case lanes ! lane of (node, next_node, pred) \<Rightarrow>
                   if pred then [(out_base + popcnt (take lane lane_mask), postorder ! node)] else [])
               [0..<length lanes]);
            lanes' = map (\<lambda>(node, next_node, pred).
                 if pred then (postorder_parent ! node, next_node,
                               postorder_parent ! node < next_node)
                 else (node, next_node, pred)) lanes
        in (lanes', out_base + popcnt lane_mask, writes @ new_writes))"

partial_function (option) fill_while ::
  "nat list \<Rightarrow> nat list \<Rightarrow> lane_state list \<times> nat \<times> (nat \<times> nat) list
     \<Rightarrow> (lane_state list \<times> nat \<times> (nat \<times> nat) list) option" where
  "fill_while postorder postorder_parent st =
     (if popcnt (ballot (fst st)) \<noteq> 0
      then fill_while postorder postorder_parent (fill_round postorder postorder_parent st)
      else Some st)"

declare fill_while.simps [code]

definition init_lanes :: "nat \<Rightarrow> nat list \<Rightarrow> nat \<Rightarrow> nat \<Rightarrow> nat \<Rightarrow> lane_state list" where
  "init_lanes subwarp_size postorder_cols diag_postorder lower_end base =
     map (\<lambda>lane.
            let nz = base + lane;
                node = (if nz < lower_end then postorder_cols ! nz else diag_postorder);
                next_node = next_node_of postorder_cols diag_postorder lower_end nz
            in (node, next_node, node < next_node))
         [0..<subwarp_size]"

fun fill_chunks ::
  "nat \<Rightarrow> nat list \<Rightarrow> nat list \<Rightarrow> nat list \<Rightarrow> nat \<Rightarrow> nat \<Rightarrow> nat list
     \<Rightarrow> nat \<times> (nat \<times> nat) list \<Rightarrow> (nat \<times> (nat \<times> nat) list) option" where
  "fill_chunks subwarp_size postorder postorder_parent postorder_cols diag_postorder lower_end
       [] st = Some st"
| "fill_chunks subwarp_size postorder postorder_parent postorder_cols diag_postorder lower_end
       (base # bases) st =
     (case fill_while postorder postorder_parent
             (init_lanes subwarp_size postorder_cols diag_postorder lower_end base,
              fst st, snd st) of
        None \<Rightarrow> None
      | Some (lanes, out_base, writes) \<Rightarrow>
          fill_chunks subwarp_size postorder postorder_parent postorder_cols diag_postorder
            lower_end bases (out_base, writes))"

definition symbolic_factorize_row ::
  "nat \<Rightarrow> nat list \<Rightarrow> nat list \<Rightarrow> nat list \<Rightarrow> nat list \<Rightarrow> nat list \<Rightarrow> nat list
     \<Rightarrow> nat list \<Rightarrow> nat \<Rightarrow> (nat \<times> nat) list option" where
  "symbolic_factorize_row subwarp_size row_ptrs lower_ends inv_postorder postorder_cols
       postorder postorder_parent out_row_ptrs row =
     (let row_begin = row_ptrs ! row;
          diag_postorder = inv_postorder ! row;
          lower_end = lower_ends ! row;
          out_base = out_row_ptrs ! row
      in case fill_chunks subwarp_size postorder postorder_parent postorder_cols
                diag_postorder lower_end (strided row_begin lower_end subwarp_size)
                (out_base, []) of
           None \<Rightarrow> None
         | Some (out_base', writes) \<Rightarrow> Some (writes @ [(out_base', row)]))"

text \<open>Vocabulary for the statements: in a postorder numbering every node lies below its
  parent (roots have the pseudo-root \<open>num_rows\<close> as parent).\<close>

definition forest_ok :: "nat list \<Rightarrow> nat \<Rightarrow> bool" where
  "forest_ok postorder_parent n \<longleftrightarrow> (\<forall>node \<in> {0..<n}. node < postorder_parent ! node)"

definition indices_below :: "nat list \<Rightarrow> nat \<Rightarrow> nat \<Rightarrow> bool" where
  "indices_below postorder_cols lower_end n \<longleftrightarrow>
     (\<forall>nz \<in> {0..<lower_end}. postorder_cols ! nz < n)"

definition chain_len :: "nat list \<Rightarrow> nat \<Rightarrow> nat \<Rightarrow> nat" where
  "chain_len postorder_parent node next_node =
     the (count_chain postorder_parent node next_node 0)"

lemma count_chain_total:
  assumes "forest_ok parent n" "next_node \<le> n"
  shows "count_chain parent node next_node c = Some (c + chain_len parent node next_node)"
proof (induction "next_node - node" arbitrary: node c rule: less_induct)
  case less
  show ?case
  proof (cases "node < next_node")
    case False
    then show ?thesis by (simp add: count_chain.simps chain_len_def)
  next
    case True
    then have "node < n" using assms(2) by simp
    then have up: "node < parent ! node" using assms(1) by (simp add: forest_ok_def)
    then have m: "next_node - parent ! node < next_node - node" using True by simp
    have s1: "count_chain parent node next_node c
            = count_chain parent (parent ! node) next_node (c + 1)" for c
      using True by (subst count_chain.simps) simp
    have "chain_len parent node next_node
        = the (count_chain parent (parent ! node) next_node 1)"
      unfolding chain_len_def using s1 [of 0] by simp
    also have "\<dots> = 1 + chain_len parent (parent ! node) next_node"
      using less [OF m, of 1] by simp
    finally have cl: "chain_len parent node next_node
        = 1 + chain_len parent (parent ! node) next_node" .
    show ?thesis using s1 [of c] less [OF m, of "c + 1"] cl by simp
  qed
qed

lemma chain_len_step:
  assumes "forest_ok parent n" "next_node \<le> n" "node < next_node"
  shows "chain_len parent node next_node = 1 + chain_len parent (parent ! node) next_node"
proof -
  have "count_chain parent node next_node 0
      = count_chain parent (parent ! node) next_node (0 + 1)"
    using assms(3) by (subst count_chain.simps) simp
  then show ?thesis
    using count_chain_total [OF assms(1,2), of "parent ! node" 1]
    by (simp add: chain_len_def)
qed

lemma chain_len_stop: "\<not> node < next_node \<Longrightarrow> chain_len parent node next_node = 0"
  by (simp add: chain_len_def count_chain.simps)

definition row_len :: "nat list \<Rightarrow> nat list \<Rightarrow> nat \<Rightarrow> nat \<Rightarrow> nat \<Rightarrow> nat" where
  "row_len parent cols diag lower_end nz =
     chain_len parent (cols ! nz) (next_node_of cols diag lower_end nz)"

lemma lane_count_total:
  assumes "forest_ok parent n"
      and "\<And>nz. next_node_of cols diag lower_end nz \<le> n"
  shows "lane_count parent cols diag lower_end nzs c
       = Some (c + sum_list (map (row_len parent cols diag lower_end) nzs))"
proof (induction nzs arbitrary: c)
  case Nil
  show ?case by simp
next
  case (Cons nz nzs)
  show ?case
    using count_chain_total [OF assms(1) assms(2) [of nz], of "cols ! nz" c] Cons [of "c + row_len parent cols diag lower_end nz"]
    by (simp add: Let_def row_len_def add.assoc)
qed

lemma reduce_plus_Some:
  "reduce_plus (map (\<lambda>x. Some (f x)) xs) = Some (sum_list (map f xs))"
  by (induction xs) simp_all

lemma strided_lane_sum:
  fixes f :: "nat \<Rightarrow> nat"
  shows "0 < step \<Longrightarrow>
   sum_list (map (\<lambda>lane. sum_list (map f (strided (i + lane) e step))) [0..<step])
     = sum_list (map f [i..<e])"
proof (induction i e step rule: strided.induct)
  case (1 i e step)
  show ?case
  proof (cases "i < e")
    case False
    have "strided (i + lane) e step = []" for lane
      using False by (subst strided.simps) auto
    then show ?thesis using False by simp
  next
    case lt: True
    then have True: "i < e \<and> 0 < step" using "1.prems" by simp
    have un: "strided (i + lane) e step
        = (if i + lane < e then (i + lane) # strided (i + step + lane) e step else [])" for lane
      using True by (subst strided.simps) (simp add: add.commute add.left_commute)
    have emp: "strided (i + step + lane) e step = []" if "\<not> i + lane < e" for lane
      using that by (subst strided.simps) simp
    have "sum_list (map (\<lambda>lane. sum_list (map f (strided (i + lane) e step))) [0..<step])
        = sum_list (map (\<lambda>lane. (if i + lane < e then f (i + lane) else 0)
              + sum_list (map f (strided (i + step + lane) e step))) [0..<step])"
      by (intro arg_cong [where f = sum_list] map_cong refl) (simp add: un emp)
    also have "\<dots> = sum_list (map (\<lambda>lane. if i + lane < e then f (i + lane) else 0) [0..<step])
        + sum_list (map (\<lambda>lane. sum_list (map f (strided (i + step + lane) e step))) [0..<step])"
      by (simp add: sum_list_addf)
    also have "sum_list (map (\<lambda>lane. sum_list (map f (strided (i + step + lane) e step))) [0..<step])
        = sum_list (map f [i + step..<e])"
      using "1.IH" True by simp
    also have "sum_list (map (\<lambda>lane. if i + lane < e then f (i + lane) else 0) [0..<step])
        = sum_list (map f [i..<min (i + step) e])"
    proof -
      have "sum_list (map (\<lambda>lane. if i + lane < e then f (i + lane) else 0) [0..<k])
          = sum_list (map f [i..<min (i + k) e])" for k
      proof (induction k)
        case 0
        show ?case by simp
      next
        case (Suc k)
        show ?case
        proof (cases "i + k < e")
          case True
          then have "[i..<min (i + Suc k) e] = [i..<min (i + k) e] @ [i + k]"
            by (simp add: min_def)
          then show ?thesis using Suc True by simp
        next
          case False
          then have "min (i + Suc k) e = min (i + k) e" by simp
          then show ?thesis using Suc False by simp
        qed
      qed
      then show ?thesis .
    qed
    also have "sum_list (map f [i..<min (i + step) e]) + sum_list (map f [i + step..<e])
        = sum_list (map f [i..<e])"
    proof (cases "i + step \<le> e")
      case True
      then have "[i..<e] = [i..<i + step] @ [i + step..<e]"
        by (metis le_add1 le_Suc_ex upt_add_eq_append)
      then show ?thesis using True by (simp add: min_def)
    next
      case False
      then show ?thesis by (simp add: min_def)
    qed
    finally show ?thesis .
  qed
qed

lemma symbolic_count_row_total:
  assumes "0 < sw" "forest_ok parent n"
      and "\<And>nz. next_node_of cols (inv_postorder ! row) (lower_ends ! row) nz \<le> n"
  shows "symbolic_count_row sw row_ptrs lower_ends inv_postorder cols parent row
       = Some (sum_list (map (row_len parent cols (inv_postorder ! row) (lower_ends ! row))
                 [row_ptrs ! row..<lower_ends ! row]) + 1)"
proof -
  let ?f = "row_len parent cols (inv_postorder ! row) (lower_ends ! row)"
  have lc: "lane_count parent cols (inv_postorder ! row) (lower_ends ! row) nzs 0
          = Some (sum_list (map ?f nzs))" for nzs
    using lane_count_total [OF assms(2,3), of nzs 0] by simp
  show ?thesis
    unfolding symbolic_count_row_def Let_def lc reduce_plus_Some
    using strided_lane_sum [OF assms(1), of ?f "row_ptrs ! row" "lower_ends ! row"]
    by simp
qed

definition lane_inv :: "nat \<Rightarrow> lane_state \<Rightarrow> bool" where
  "lane_inv n l = (case l of (node, next_node, pred) \<Rightarrow> pred = (node < next_node) \<and> next_node \<le> n)"

definition lane_len :: "nat list \<Rightarrow> lane_state \<Rightarrow> nat" where
  "lane_len parent l = (case l of (node, next_node, pred) \<Rightarrow> chain_len parent node next_node)"

lemma popcnt_snoc: "popcnt (xs @ [b]) = popcnt xs + (if b then 1 else 0)"
  by (simp add: popcnt_def)

lemma round_positions:
  "k \<le> length lanes \<Longrightarrow>
   map fst (concat (map (\<lambda>lane. case lanes ! lane of (node, next_node, pred) \<Rightarrow>
        if pred then [(ob + popcnt (take lane (ballot lanes)), g node)] else []) [0..<k]))
     = [ob..<ob + popcnt (take k (ballot lanes))]"
proof (induction k)
  case 0
  show ?case by (simp add: popcnt_def)
next
  case (Suc k)
  then have k: "k < length lanes" by simp
  obtain node next_node pred where l: "lanes ! k = (node, next_node, pred)"
    by (cases "lanes ! k") auto
  have b: "ballot lanes ! k = pred" using k l by (simp add: ballot_def)
  have t: "take (Suc k) (ballot lanes) = take k (ballot lanes) @ [pred]"
    using k b by (simp add: take_Suc_conv_app_nth ballot_def)
  show ?case using Suc k l unfolding t popcnt_snoc by simp
qed

lemma fill_round_props:
  assumes f: "forest_ok parent n" and inv: "\<forall>l \<in> set lanes. lane_inv n l"
  shows "\<exists>lanes' nw. fill_round postorder parent (lanes, ob, ws)
            = (lanes', ob + popcnt (ballot lanes), ws @ nw) \<and>
         map fst nw = [ob..<ob + popcnt (ballot lanes)] \<and>
         (\<forall>l \<in> set lanes'. lane_inv n l) \<and>
         sum_list (map (lane_len parent) lanes)
            = popcnt (ballot lanes) + sum_list (map (lane_len parent) lanes')"
proof -
  let ?upd = "\<lambda>(node, next_node, pred).
                 if pred then (parent ! node, next_node, parent ! node < next_node)
                 else (node, next_node, pred)"
  let ?nw = "concat (map (\<lambda>lane. case lanes ! lane of (node, next_node, pred) \<Rightarrow>
        if pred then [(ob + popcnt (take lane (ballot lanes)), postorder ! node)] else [])
        [0..<length lanes])"
  have e: "fill_round postorder parent (lanes, ob, ws)
         = (map ?upd lanes, ob + popcnt (ballot lanes), ws @ ?nw)"
    by (simp add: fill_round_def Let_def)
  have p: "map fst ?nw = [ob..<ob + popcnt (ballot lanes)]"
    using round_positions [of "length lanes" lanes ob "\<lambda>node. postorder ! node"]
    by (simp add: ballot_def)
  have i: "\<forall>l \<in> set (map ?upd lanes). lane_inv n l"
    using inv by (auto simp: lane_inv_def split: prod.splits)
  have one: "lane_len parent l = (if snd (snd l) then 1 else 0) + lane_len parent (?upd l)"
    if "lane_inv n l" for l
  proof -
    obtain node next_node pred where l: "l = (node, next_node, pred)" by (cases l) auto
    show ?thesis
      using that chain_len_step [OF f, of next_node node]
      by (auto simp: l lane_inv_def lane_len_def)
  qed
  have s: "sum_list (map (lane_len parent) ls)
         = popcnt (ballot ls) + sum_list (map (lane_len parent) (map ?upd ls))"
    if "\<forall>l \<in> set ls. lane_inv n l" for ls
    using that
  proof (induction ls)
    case Nil
    show ?case by (simp add: popcnt_def ballot_def)
  next
    case (Cons l ls)
    obtain node next_node pred where l: "l = (node, next_node, pred)" by (cases l) auto
    have "popcnt (ballot (l # ls)) = (if pred then 1 else 0) + popcnt (ballot ls)"
      by (simp add: popcnt_def ballot_def l)
    moreover have "lane_len parent l = (if pred then 1 else 0) + lane_len parent (?upd l)"
      using one [of l] Cons.prems by (simp add: l)
    ultimately show ?case using Cons by simp
  qed
  show ?thesis using e p i s [OF inv] by blast
qed

lemma fill_while_total:
  assumes f: "forest_ok parent n"
  shows "\<forall>l \<in> set lanes. lane_inv n l \<Longrightarrow>
    \<exists>lanes' nw. fill_while postorder parent (lanes, ob, ws)
            = Some (lanes', ob + sum_list (map (lane_len parent) lanes), ws @ nw) \<and>
         map fst nw = [ob..<ob + sum_list (map (lane_len parent) lanes)]"
proof (induction "sum_list (map (lane_len parent) lanes)" arbitrary: lanes ob ws rule: less_induct)
  case less
  show ?case
  proof (cases "popcnt (ballot lanes) = 0")
    case True
    have "lane_len parent l = 0" if "l \<in> set lanes" for l
    proof -
      obtain node next_node pred where l: "l = (node, next_node, pred)" by (cases l) auto
      have "pred \<in> set (ballot lanes)" using that l by (force simp: ballot_def)
      then have "\<not> pred" using True by (auto simp: popcnt_def filter_empty_conv)
      then have "\<not> node < next_node" using less.prems that l by (auto simp: lane_inv_def)
      then show ?thesis by (simp add: l lane_len_def chain_len_stop)
    qed
    then have z: "sum_list (map (lane_len parent) lanes) = 0" by simp
    have "fill_while postorder parent (lanes, ob, ws) = Some (lanes, ob, ws)"
      using True by (subst fill_while.simps) simp
    then show ?thesis using z by simp
  next
    case False
    from fill_round_props [OF f less.prems, of postorder ob ws] obtain lanes' nw where
      r: "fill_round postorder parent (lanes, ob, ws)
            = (lanes', ob + popcnt (ballot lanes), ws @ nw)"
      and p: "map fst nw = [ob..<ob + popcnt (ballot lanes)]"
      and i: "\<forall>l \<in> set lanes'. lane_inv n l"
      and s: "sum_list (map (lane_len parent) lanes)
            = popcnt (ballot lanes) + sum_list (map (lane_len parent) lanes')"
      by blast
    have m: "sum_list (map (lane_len parent) lanes') < sum_list (map (lane_len parent) lanes)"
      using s False by simp
    from less.hyps [OF m i, of "ob + popcnt (ballot lanes)" "ws @ nw"] obtain lanes'' nw' where
      w: "fill_while postorder parent (lanes', ob + popcnt (ballot lanes), ws @ nw)
            = Some (lanes'', ob + popcnt (ballot lanes) + sum_list (map (lane_len parent) lanes'),
                    (ws @ nw) @ nw')"
      and p': "map fst nw' = [ob + popcnt (ballot lanes)..<
                 ob + popcnt (ballot lanes) + sum_list (map (lane_len parent) lanes')]"
      by blast
    have "fill_while postorder parent (lanes, ob, ws)
        = fill_while postorder parent (lanes', ob + popcnt (ballot lanes), ws @ nw)"
      using False r by (subst fill_while.simps) simp
    then have "fill_while postorder parent (lanes, ob, ws)
        = Some (lanes'', ob + sum_list (map (lane_len parent) lanes), ws @ (nw @ nw'))"
      using w s by (simp add: add.assoc)
    moreover have "map fst (nw @ nw') = [ob..<ob + sum_list (map (lane_len parent) lanes)]"
    proof -
      have "[ob..<ob + (popcnt (ballot lanes) + sum_list (map (lane_len parent) lanes'))]
          = [ob..<ob + popcnt (ballot lanes)] @ [ob + popcnt (ballot lanes)..<
               ob + popcnt (ballot lanes) + sum_list (map (lane_len parent) lanes')]"
        using upt_add_eq_append [of ob "ob + popcnt (ballot lanes)"
            "sum_list (map (lane_len parent) lanes')"] by (simp add: add.assoc)
      then show ?thesis using p p' s by simp
    qed
    ultimately show ?thesis by blast
  qed
qed

lemma init_lanes_inv:
  assumes "diag \<le> n" "\<And>nz. next_node_of cols diag lower_end nz \<le> n"
  shows "\<forall>l \<in> set (init_lanes sw cols diag lower_end base). lane_inv n l"
  using assms(2) by (auto simp: init_lanes_def lane_inv_def Let_def)

lemma init_lanes_len:
  "sum_list (map (lane_len parent) (init_lanes sw cols diag lower_end base))
     = sum_list (map (row_len parent cols diag lower_end) [base..<min (base + sw) lower_end])"
proof -
  have beyond: "lane_len parent (diag, next_node_of cols diag lower_end nz, b) = 0"
    if "\<not> nz < lower_end" for nz b
    using that by (simp add: lane_len_def next_node_of_def chain_len_stop)
  have "sum_list (map (lane_len parent) (init_lanes k cols diag lower_end base))
     = sum_list (map (row_len parent cols diag lower_end) [base..<min (base + k) lower_end])" for k
  proof (induction k)
    case 0
    show ?case by (simp add: init_lanes_def)
  next
    case (Suc k)
    have il: "init_lanes (Suc k) cols diag lower_end base
        = init_lanes k cols diag lower_end base @
          [(let nz = base + k;
                node = (if nz < lower_end then cols ! nz else diag);
                next_node = next_node_of cols diag lower_end nz
            in (node, next_node, node < next_node))]"
      by (simp add: init_lanes_def)
    show ?case
    proof (cases "base + k < lower_end")
      case True
      then have "[base..<min (base + Suc k) lower_end]
          = [base..<min (base + k) lower_end] @ [base + k]"
        by (simp add: min_def)
      then show ?thesis using Suc True unfolding il
        by (simp add: Let_def lane_len_def row_len_def)
    next
      case False
      then have "min (base + Suc k) lower_end = min (base + k) lower_end" by simp
      then show ?thesis using Suc False beyond unfolding il by (simp add: Let_def)
    qed
  qed
  then show ?thesis .
qed

lemma strided_chunk_sum:
  fixes f :: "nat \<Rightarrow> nat"
  shows "0 < step \<Longrightarrow>
    sum_list (map (\<lambda>base. sum_list (map f [base..<min (base + step) e])) (strided i e step))
      = sum_list (map f [i..<e])"
proof (induction i e step rule: strided.induct)
  case (1 i e step)
  show ?case
  proof (cases "i < e")
    case False
    then show ?thesis by (subst strided.simps) simp
  next
    case True
    have split: "sum_list (map f [i..<min (i + step) e]) + sum_list (map f [i + step..<e])
        = sum_list (map f [i..<e])"
    proof (cases "i + step \<le> e")
      case True
      then have "[i..<e] = [i..<i + step] @ [i + step..<e]"
        by (metis le_add1 le_Suc_ex upt_add_eq_append)
      then show ?thesis using True by (simp add: min_def)
    next
      case False
      then show ?thesis by (simp add: min_def)
    qed
    have "strided i e step = i # strided (i + step) e step"
      using True "1.prems" by (subst strided.simps) simp
    then show ?thesis using "1.IH" True "1.prems" split by simp
  qed
qed

lemma fill_chunks_total:
  assumes f: "forest_ok parent n" and d: "diag \<le> n"
      and nx: "\<And>nz. next_node_of cols diag lower_end nz \<le> n"
  shows "\<exists>nw. fill_chunks sw postorder parent cols diag lower_end bases (ob, ws)
            = Some (ob + sum_list (map (\<lambda>base. sum_list (map (row_len parent cols diag lower_end)
                       [base..<min (base + sw) lower_end])) bases), ws @ nw) \<and>
         map fst nw = [ob..<ob + sum_list (map (\<lambda>base. sum_list
                       (map (row_len parent cols diag lower_end)
                       [base..<min (base + sw) lower_end])) bases)]"
proof (induction bases arbitrary: ob ws)
  case Nil
  show ?case by simp
next
  case (Cons base bases)
  let ?T = "\<lambda>base. sum_list (map (row_len parent cols diag lower_end)
                       [base..<min (base + sw) lower_end])"
  let ?il = "init_lanes sw cols diag lower_end base"
  from fill_while_total [OF f init_lanes_inv [OF d nx], where sw1 = sw and base1 = base
      and postorder = postorder and ob = ob and ws = ws]
  obtain lanes' nw where
    w: "fill_while postorder parent (?il, ob, ws) = Some (lanes', ob + ?T base, ws @ nw)"
    and p: "map fst nw = [ob..<ob + ?T base]"
    unfolding init_lanes_len by blast
  from Cons [where ob = "ob + ?T base" and ws = "ws @ nw"] obtain nw' where
    c: "fill_chunks sw postorder parent cols diag lower_end bases (ob + ?T base, ws @ nw)
          = Some (ob + ?T base + sum_list (map ?T bases), (ws @ nw) @ nw')"
    and p': "map fst nw' = [ob + ?T base..<ob + ?T base + sum_list (map ?T bases)]"
    by blast
  have "fill_chunks sw postorder parent cols diag lower_end (base # bases) (ob, ws)
      = Some (ob + sum_list (map ?T (base # bases)), ws @ (nw @ nw'))"
    using w c by (simp add: add.assoc)
  moreover have "map fst (nw @ nw') = [ob..<ob + sum_list (map ?T (base # bases))]"
  proof -
    have "[ob..<ob + (?T base + sum_list (map ?T bases))]
        = [ob..<ob + ?T base] @ [ob + ?T base..<ob + ?T base + sum_list (map ?T bases)]"
      using upt_add_eq_append [of ob "ob + ?T base" "sum_list (map ?T bases)"]
      by (simp add: add.assoc)
    then show ?thesis using p p' by simp
  qed
  ultimately show ?case by blast
qed

text \<open>
  Claim C7. For every row, when the parents respect the postorder and the indices of the
  row lie below \<open>num_rows\<close>, both passes return, and the fill pass writes exactly
  \<open>row_nnz\<close> entries, \<open>row_nnz\<close> being the count of the counting pass: the positions
  written are \<open>out_row_ptrs[row], \<dots>, out_row_ptrs[row] + row_nnz - 1\<close>, each once, the last
  one holding the diagonal entry.
\<close>

theorem symbolic_fill_matches_count:
  assumes "0 < subwarp_size"
      and "forest_ok postorder_parent num_rows"
      and "inv_postorder ! row < num_rows"
      and "indices_below postorder_cols (lower_ends ! row) num_rows"
  shows "\<exists>row_nnz writes.
     symbolic_count_row subwarp_size row_ptrs lower_ends inv_postorder postorder_cols
        postorder_parent row = Some row_nnz \<and>
     symbolic_factorize_row subwarp_size row_ptrs lower_ends inv_postorder postorder_cols
        postorder postorder_parent out_row_ptrs row = Some writes \<and>
     length writes = row_nnz \<and>
     map fst writes = [out_row_ptrs ! row..<out_row_ptrs ! row + row_nnz] \<and>
     last writes = (out_row_ptrs ! row + row_nnz - 1, row)"
proof -
  let ?diag = "inv_postorder ! row" and ?le = "lower_ends ! row" and ?rb = "row_ptrs ! row"
  let ?ob = "out_row_ptrs ! row"
  let ?f = "row_len postorder_parent postorder_cols ?diag ?le"
  let ?S = "sum_list (map ?f [?rb..<?le])"
  have d: "?diag \<le> num_rows" using assms(3) by simp
  have nx: "next_node_of postorder_cols ?diag ?le nz \<le> num_rows" for nz
  proof (cases "nz < ?le - 1")
    case True
    then have "nz + 1 \<in> {0..<?le}" by simp
    then have "postorder_cols ! (nz + 1) < num_rows"
      using assms(4) unfolding indices_below_def by blast
    then show ?thesis using True by (simp add: next_node_of_def)
  next
    case False
    then show ?thesis using d by (simp add: next_node_of_def)
  qed
  have c: "symbolic_count_row subwarp_size row_ptrs lower_ends inv_postorder postorder_cols
        postorder_parent row = Some (?S + 1)"
    using symbolic_count_row_total [OF assms(1,2) nx] .
  from fill_chunks_total [OF assms(2) d nx, where sw = subwarp_size and postorder = postorder
      and bases = "strided ?rb ?le subwarp_size" and ob = ?ob and ws = "[]"]
  obtain nw where
    fc: "fill_chunks subwarp_size postorder postorder_parent postorder_cols ?diag ?le
           (strided ?rb ?le subwarp_size) (?ob, []) = Some (?ob + ?S, nw)"
    and p: "map fst nw = [?ob..<?ob + ?S]"
    unfolding strided_chunk_sum [OF assms(1)] by auto
  have w: "symbolic_factorize_row subwarp_size row_ptrs lower_ends inv_postorder postorder_cols
        postorder postorder_parent out_row_ptrs row = Some (nw @ [(?ob + ?S, row)])"
    using fc by (simp add: symbolic_factorize_row_def Let_def)
  have len: "length nw = ?S" using p by (metis length_map length_upt add_diff_cancel_left')
  have "map fst (nw @ [(?ob + ?S, row)]) = [?ob..<?ob + (?S + 1)]"
    using p by simp
  then show ?thesis using c w len by simp
qed

text \<open>The theorem at the last row of a 4-by-4 pattern, with a subwarp of two lanes.\<close>

theorem symbolic_fill_matches_count_witness:
  "(0::nat) < 2 \<and> forest_ok [1, 3, 3, 4] 4 \<and> [0, 1, 2, 3] ! 3 < (4::nat) \<and>
   indices_below [3, 0, 3, 3, 0, 2, 3] ([0, 2, 3, 6] ! 3) 4 \<and>
   (\<exists>row_nnz writes.
      symbolic_count_row 2 [0, 1, 3, 4, 7] [0, 2, 3, 6] [0, 1, 2, 3] [3, 0, 3, 3, 0, 2, 3]
         [1, 3, 3, 4] 3 = Some row_nnz \<and>
      symbolic_factorize_row 2 [0, 1, 3, 4, 7] [0, 2, 3, 6] [0, 1, 2, 3] [3, 0, 3, 3, 0, 2, 3]
         [0, 1, 2, 3] [1, 3, 3, 4] [0, 1, 3, 4] 3 = Some writes \<and>
      length writes = row_nnz \<and>
      map fst writes = [[0, 1, 3, 4] ! 3..<[0, 1, 3, 4] ! 3 + row_nnz] \<and>
      last writes = ([0, 1, 3, 4] ! 3 + row_nnz - 1, 3))"
proof -
  have h1: "(0::nat) < 2" by simp
  have h2: "forest_ok [1, 3, 3, 4] 4" by code_simp
  have h3: "[0, 1, 2, 3] ! 3 < (4::nat)" by simp
  have h4: "indices_below [3, 0, 3, 3, 0, 2, 3] ([0, 2, 3, 6] ! 3) 4" by code_simp
  from symbolic_fill_matches_count [OF h1 h2 h3 h4, where row_ptrs = "[0, 1, 3, 4, 7]"
      and postorder = "[0, 1, 2, 3]" and out_row_ptrs = "[0, 1, 3, 4]"] h1 h2 h3 h4
  show ?thesis by blast
qed


section \<open>Small dense block inverter (warp-level Gauss-Jordan)\<close>

text \<open>
  A group of lanes holds one matrix row per lane: the matrix is the list of the lanes'
  register arrays \<open>row\<close>, lane 0 first, each of at least \<open>max_problem_size\<close> entries.
  A shuffle \<open>group.shfl(x, l)\<close> reads the value of \<open>x\<close> in lane \<open>l\<close>. The routine is a
  template over the value type: the definitions need only the arithmetic operations, the
  magnitude and the comparison of the values. The statements on inverses take the values
  from a linearly ordered field, where the arithmetic is exact; the floating-point
  values \<open>fval\<close> are another instance.

  Modelled from the spec: \<open>choose_pivot\<close> is not among the translated sources. The
  specification describes it as a group-wide max-with-index reduction: the pivot lane is
  chosen among the not-yet-pivoted lanes as the one maximizing the magnitude of its
  entry, ties broken by the lowest lane index. (With no candidate left the model
  returns lane 0; this case does not occur in \<open>invert_block\<close>.)
\<close>

definition choose_pivot ::
  "'a::{zero,one,plus,times,uminus,inverse,abs,ord} list \<Rightarrow> bool list \<Rightarrow> nat" where
  "choose_pivot local_data is_pivoted =
     (case filter (\<lambda>lane. \<not> is_pivoted ! lane) [0..<length local_data] of
        [] \<Rightarrow> 0
      | c # cs \<Rightarrow> fold (\<lambda>lane best.
                     if abs (local_data ! best) < abs (local_data ! lane) then lane else best)
                   cs c)"

text \<open>
  \<open>apply_gauss_jordan_transform\<close>: all lanes read the pivot element by a shuffle from
  lane \<open>key_row\<close>; when it is zero the status becomes false and the rows stay as they
  are. Otherwise every lane computes its factor \<open>key_col_elem\<close>, runs the loop over the
  \<open>max_problem_size\<close> entries of its row (\<open>transform_row\<close>: iteration \<open>i\<close> reads entry
  \<open>i\<close> of the key row, which no earlier iteration has changed), and finally stores its
  factor at \<open>key_col\<close>.
\<close>

definition transform_row ::
  "nat \<Rightarrow> bool \<Rightarrow> 'a::{zero,one,plus,times,uminus,inverse,abs,ord} \<Rightarrow> 'a list \<Rightarrow> 'a list
     \<Rightarrow> 'a list" where
  "transform_row max_problem_size is_key key_col_elem key_row_vals row =
     fold (\<lambda>i r.
             let key_row_elem = key_row_vals ! i;
                 r0 = (if is_key then r[i := 0] else r)
             in r0[i := r0 ! i + key_col_elem * key_row_elem])
          [0..<max_problem_size] row"

definition apply_gauss_jordan_transform ::
  "nat \<Rightarrow> nat \<Rightarrow> nat \<Rightarrow> 'a::{zero,one,plus,times,uminus,inverse,abs,ord} list list \<times> bool
     \<Rightarrow> 'a list list \<times> bool" where
  "apply_gauss_jordan_transform max_problem_size key_row key_col st =
     (case st of (rows, status) \<Rightarrow>
        let key_col_elem = rows ! key_row ! key_col in
        if key_col_elem = 0 then (rows, False)
        else
          (map (\<lambda>lane.
                  let row = rows ! lane;
                      kce = (if lane = key_row then 1 / key_col_elem
                             else - (row ! key_col) / key_col_elem)
                  in (transform_row max_problem_size (lane = key_row) kce (rows ! key_row) row)
                       [key_col := kce])
               [0..<length rows],
           status))"

text \<open>
  \<open>invert_block\<close>: the per-lane registers \<open>perm\<close>, \<open>trans_perm\<close> and \<open>pivoted\<close> are lists
  indexed by the lane; \<open>status\<close> is uniform over the group. An update of a lane that is
  not in the group has no effect, as in the source, where no lane passes the comparison
  with \<open>thread_rank\<close>.
\<close>

record 'a block_state =
  rows :: "'a list list"
  perm :: "nat list"
  trans_perm :: "nat list"
  pivoted :: "bool list"
  status :: bool

definition invert_step ::
  "nat \<Rightarrow> nat \<Rightarrow> 'a::{zero,one,plus,times,uminus,inverse,abs,ord} block_state
     \<Rightarrow> 'a block_state" where
  "invert_step max_problem_size i st =
     (let piv = choose_pivot (map (\<lambda>row. row ! i) (rows st)) (pivoted st);
          perm' = (perm st)[piv := i];
          pivoted' = (pivoted st)[piv := True];
          trans_perm' = (trans_perm st)[i := piv];
          res = apply_gauss_jordan_transform max_problem_size piv i (rows st, status st)
      in \<lparr>rows = fst res, perm = perm', trans_perm = trans_perm', pivoted = pivoted',
          status = snd res\<rparr>)"

definition invert_init :: "nat \<Rightarrow> 'a list list \<Rightarrow> nat list \<Rightarrow> nat list \<Rightarrow> 'a block_state" where
  "invert_init problem_size row perm0 trans_perm0 =
     \<lparr>rows = row, perm = perm0, trans_perm = trans_perm0,
      pivoted = map (\<lambda>lane. lane \<ge> problem_size) [0..<length row], status = True\<rparr>"

definition invert_block ::
  "nat \<Rightarrow> nat \<Rightarrow> 'a::{zero,one,plus,times,uminus,inverse,abs,ord} list list \<Rightarrow> nat list \<Rightarrow> nat list \<Rightarrow> 'a block_state" where
  "invert_block max_problem_size problem_size row perm0 trans_perm0 =
     fold (\<lambda>i st. if i < problem_size then invert_step max_problem_size i st else st)
          [0..<max_problem_size] (invert_init problem_size row perm0 trans_perm0)"

lemma transform_row_Suc:
  "transform_row (Suc m) is_key kce kv row
     = (let r = transform_row m is_key kce kv row;
            r0 = (if is_key then r[m := 0] else r)
        in r0[m := r0 ! m + kce * kv ! m])"
  by (simp add: transform_row_def Let_def)

lemma transform_row_length [simp]:
  "length (transform_row m is_key kce kv row) = length row"
proof (induction m arbitrary: is_key)
  case 0
  show ?case by (simp add: transform_row_def)
next
  case (Suc m)
  show ?case
    by (cases is_key) (simp_all add: transform_row_Suc Let_def Suc)
qed

lemma transform_row_nth:
  "i < length row \<Longrightarrow>
   transform_row m is_key kce kv row ! i
      = (if i < m then (if is_key then 0 else row ! i) + kce * kv ! i else row ! i)"
proof (induction m arbitrary: is_key)
  case 0
  show ?case by (simp add: transform_row_def)
next
  case (Suc m)
  note IHT = Suc.IH [OF Suc.prems, of True] and IHF = Suc.IH [OF Suc.prems, of False]
  show ?case
  proof (cases "i = m")
    case True
    then show ?thesis using IHT IHF Suc.prems
      by (cases is_key) (simp_all add: transform_row_Suc Let_def)
  next
    case False
    then have "(i < Suc m) = (i < m)" by auto
    then show ?thesis using IHT IHF False
      by (cases is_key) (simp_all add: transform_row_Suc Let_def)
  qed
qed

lemma apply_gauss_jordan_transform_zero:
  "rs ! key_row ! key_col = 0 \<Longrightarrow>
   apply_gauss_jordan_transform m key_row key_col (rs, ok) = (rs, False)"
  by (simp add: apply_gauss_jordan_transform_def)

lemma apply_gauss_jordan_transform_nonzero:
  assumes nz: "rs ! key_row ! key_col \<noteq> 0"
  shows "snd (apply_gauss_jordan_transform m key_row key_col (rs, ok)) = ok"
    and "length (fst (apply_gauss_jordan_transform m key_row key_col (rs, ok)))
           = length rs"
    and "r < length rs \<Longrightarrow>
           length (fst (apply_gauss_jordan_transform m key_row key_col (rs, ok)) ! r)
             = length (rs ! r)"
    and "r < length rs \<Longrightarrow> c < length (rs ! r) \<Longrightarrow>
           fst (apply_gauss_jordan_transform m key_row key_col (rs, ok)) ! r ! c
             = (let kce = (if r = key_row then 1 / rs ! key_row ! key_col
                           else - (rs ! r ! key_col) / rs ! key_row ! key_col)
                in if c = key_col then kce
                   else if c < m then (if r = key_row then 0 else rs ! r ! c)
                                      + kce * rs ! key_row ! c
                   else rs ! r ! c)"
proof -
  let ?pi = "rs ! key_row ! key_col"
  let ?kce = "\<lambda>lane. if lane = key_row then 1 / ?pi else - (rs ! lane ! key_col) / ?pi"
  have e: "apply_gauss_jordan_transform m key_row key_col (rs, ok)
      = (map (\<lambda>lane. (transform_row m (lane = key_row) (?kce lane) (rs ! key_row)
                          (rs ! lane)) [key_col := ?kce lane]) [0..<length rs], ok)"
    using nz by (simp add: apply_gauss_jordan_transform_def Let_def)
  show "snd (apply_gauss_jordan_transform m key_row key_col (rs, ok)) = ok"
    unfolding e by simp
  show "length (fst (apply_gauss_jordan_transform m key_row key_col (rs, ok)))
           = length rs"
    unfolding e by simp
  show "length (fst (apply_gauss_jordan_transform m key_row key_col (rs, ok)) ! r)
             = length (rs ! r)" if "r < length rs"
    unfolding e using that by simp
  show "fst (apply_gauss_jordan_transform m key_row key_col (rs, ok)) ! r ! c
             = (let kce = (if r = key_row then 1 / rs ! key_row ! key_col
                           else - (rs ! r ! key_col) / rs ! key_row ! key_col)
                in if c = key_col then kce
                   else if c < m then (if r = key_row then 0 else rs ! r ! c)
                                      + kce * rs ! key_row ! c
                   else rs ! r ! c)"
    if "r < length rs" "c < length (rs ! r)"
  proof -
    have row_r: "fst (apply_gauss_jordan_transform m key_row key_col (rs, ok)) ! r
        = (transform_row m (r = key_row) (?kce r) (rs ! key_row) (rs ! r)) [key_col := ?kce r]"
      unfolding e using that(1) by simp
    note t = transform_row_nth [OF that(2), of m "r = key_row" "?kce r" "rs ! key_row"]
    show ?thesis
    proof (cases "c = key_col")
      case True
      have "fst (apply_gauss_jordan_transform m key_row key_col (rs, ok)) ! r ! c = ?kce r"
        unfolding row_r True using that(2) True by (simp only: nth_list_update_eq transform_row_length)
      then show ?thesis using True by (simp only: Let_def if_True refl simp_thms)
    next
      case False
      have "fst (apply_gauss_jordan_transform m key_row key_col (rs, ok)) ! r ! c
          = transform_row m (r = key_row) (?kce r) (rs ! key_row) (rs ! r) ! c"
        unfolding row_r using False by (simp only: nth_list_update_neq not_sym)
      then show ?thesis using False unfolding t by (simp only: Let_def if_False simp_thms)
    qed
  qed
qed

lemma choose_pivot_fold:
  "fold (\<lambda>lane best. if abs ((d::'a::linordered_field list) ! best) < abs (d ! lane)
                       then lane else best) cs c \<in> set (c # cs) \<and>
   (\<forall>l \<in> set (c # cs). abs (d ! l) \<le> abs (d ! (fold (\<lambda>lane best.
        if abs (d ! best) < abs (d ! lane) then lane else best) cs c)))"
proof (induction cs arbitrary: c)
  case Nil
  show ?case by simp
next
  case (Cons a cs)
  let ?F = "fold (\<lambda>lane best. if abs (d ! best) < abs (d ! lane) then lane else best)"
  let ?c' = "if abs (d ! c) < abs (d ! a) then a else c"
  have e: "?F (a # cs) c = ?F cs ?c'" by simp
  note IH = Cons [of ?c']
  have m: "?F cs ?c' \<in> set (?c' # cs)" using IH by blast
  have b: "\<forall>l \<in> set (?c' # cs). abs (d ! l) \<le> abs (d ! ?F cs ?c')" using IH by blast
  have c': "abs (d ! c) \<le> abs (d ! ?c')" "abs (d ! a) \<le> abs (d ! ?c')" by auto
  have top: "abs (d ! ?c') \<le> abs (d ! ?F cs ?c')" using b by simp
  show ?case unfolding e
  proof (intro conjI ballI)
    show "?F cs ?c' \<in> set (c # a # cs)" using m by auto
  next
    fix l assume "l \<in> set (c # a # cs)"
    then consider "l = c" | "l = a" | "l \<in> set cs" by auto
    then show "abs (d ! l) \<le> abs (d ! ?F cs ?c')"
    proof cases
      case 1
      have "abs (d ! c) \<le> abs (d ! ?F cs ?c')" using c'(1) top by (rule order_trans)
      then show ?thesis using 1 by simp
    next
      case 2
      have "abs (d ! a) \<le> abs (d ! ?F cs ?c')" using c'(2) top by (rule order_trans)
      then show ?thesis using 2 by simp
    next
      case 3 then show ?thesis using b by simp
    qed
  qed
qed

lemma choose_pivot_props:
  fixes d :: "'a::linordered_field list"
  assumes "l0 < length d" "\<not> pv ! l0"
  shows "choose_pivot d pv < length d"
    and "\<not> pv ! choose_pivot d pv"
    and "\<And>l. l < length d \<Longrightarrow> \<not> pv ! l \<Longrightarrow> abs (d ! l) \<le> abs (d ! choose_pivot d pv)"
proof -
  let ?cand = "filter (\<lambda>lane. \<not> pv ! lane) [0..<length d]"
  have "l0 \<in> set ?cand" using assms by simp
  then obtain c cs where cc: "?cand = c # cs" by (cases ?cand) auto
  let ?p = "fold (\<lambda>lane best. if abs (d ! best) < abs (d ! lane) then lane else best) cs c"
  have cp: "choose_pivot d pv = ?p" by (simp add: choose_pivot_def cc)
  from choose_pivot_fold [of d cs c]
  have m: "?p \<in> set ?cand" and b: "\<forall>l \<in> set ?cand. abs (d ! l) \<le> abs (d ! ?p)"
    unfolding cc by blast+
  show "choose_pivot d pv < length d" using m cp by simp
  show "\<not> pv ! choose_pivot d pv" using m cp by simp
  show "abs (d ! l) \<le> abs (d ! choose_pivot d pv)" if "l < length d" "\<not> pv ! l" for l
    using b that cp by simp
qed

text \<open>The state after the first \<open>k\<close> iterations of the loop of \<open>invert_block\<close>, and the
  pivot lane and pivot element that iteration \<open>i\<close> meets.\<close>

definition invert_prefix ::
  "nat \<Rightarrow> nat \<Rightarrow> nat \<Rightarrow> 'a::{zero,one,plus,times,uminus,inverse,abs,ord} block_state \<Rightarrow> 'a block_state" where
  "invert_prefix max_problem_size problem_size k st0 =
     fold (\<lambda>i st. if i < problem_size then invert_step max_problem_size i st else st)
          [0..<k] st0"

definition pivot_lane :: "nat \<Rightarrow> 'a::{zero,one,plus,times,uminus,inverse,abs,ord} block_state \<Rightarrow> nat" where
  "pivot_lane i st = choose_pivot (map (\<lambda>row. row ! i) (rows st)) (pivoted st)"

text \<open>Invariants of the loop: the sizes of the registers, and the bookkeeping of the
  pivots (which lanes are pivoted, and that \<open>perm\<close> and \<open>trans_perm\<close> are inverse to each
  other on the pivots chosen so far).\<close>

definition shape :: "nat \<Rightarrow> nat \<Rightarrow> 'a block_state \<Rightarrow> bool" where
  "shape g m st \<longleftrightarrow>
     length (rows st) = g \<and> (\<forall>r \<in> {0..<g}. m \<le> length (rows st ! r)) \<and>
     length (perm st) = g \<and> length (trans_perm st) = g \<and> length (pivoted st) = g"

definition piv_inv :: "nat \<Rightarrow> nat \<Rightarrow> nat \<Rightarrow> 'a block_state \<Rightarrow> bool" where
  "piv_inv n g k st \<longleftrightarrow>
     (\<forall>r < g. n \<le> r \<longrightarrow> pivoted st ! r) \<and>
     (\<forall>c < k. trans_perm st ! c < n \<and> pivoted st ! (trans_perm st ! c) \<and>
                perm st ! (trans_perm st ! c) = c) \<and>
     (\<forall>r < n. pivoted st ! r \<longrightarrow> perm st ! r < k \<and> trans_perm st ! (perm st ! r) = r)"

lemma invert_step_sel:
  "perm (invert_step m i st) = (perm st)[pivot_lane i st := i]"
  "pivoted (invert_step m i st) = (pivoted st)[pivot_lane i st := True]"
  "trans_perm (invert_step m i st) = (trans_perm st)[i := pivot_lane i st]"
  "rows (invert_step m i st)
     = fst (apply_gauss_jordan_transform m (pivot_lane i st) i (rows st, status st))"
  "status (invert_step m i st)
     = snd (apply_gauss_jordan_transform m (pivot_lane i st) i (rows st, status st))"
  by (simp_all add: invert_step_def pivot_lane_def Let_def)

lemma invert_step_status:
  "status (invert_step m i st)
     = (status st \<and> rows st ! pivot_lane i st ! i \<noteq> 0)"
proof (cases "rows st ! pivot_lane i st ! i = 0")
  case True
  then show ?thesis
    by (simp add: invert_step_sel apply_gauss_jordan_transform_zero)
next
  case False
  then show ?thesis
    by (simp add: invert_step_sel apply_gauss_jordan_transform_nonzero(1))
qed

lemma invert_step_zero:
  "rows st ! pivot_lane i st ! i = 0 \<Longrightarrow> rows (invert_step m i st) = rows st"
  by (simp add: invert_step_sel apply_gauss_jordan_transform_zero)

lemma invert_step_shape:
  assumes "shape g m st"
  shows "shape g m (invert_step m i st)"
proof (cases "rows st ! pivot_lane i st ! i = 0")
  case True
  then show ?thesis using assms
    by (simp add: shape_def invert_step_sel apply_gauss_jordan_transform_zero)
next
  case False
  note a = apply_gauss_jordan_transform_nonzero [OF False, where m = m and ok = "status st"]
  show ?thesis using assms a(2) a(3)
    by (simp add: shape_def invert_step_sel)
qed

lemma exists_unpivoted:
  assumes inv: "piv_inv n g k st" and k: "k < n"
  shows "\<exists>r < n. \<not> pivoted st ! r"
proof (rule ccontr)
  assume "\<not> (\<exists>r < n. \<not> pivoted st ! r)"
  then have all: "\<And>r. r < n \<Longrightarrow> pivoted st ! r" by blast
  have p: "\<And>r. r < n \<Longrightarrow> perm st ! r < k \<and> trans_perm st ! (perm st ! r) = r"
    using inv all unfolding piv_inv_def by blast
  have "inj_on (\<lambda>r. perm st ! r) {..<n}"
    by (rule inj_on_inverseI [where g = "\<lambda>c. trans_perm st ! c"]) (use p in simp)
  moreover have "(\<lambda>r. perm st ! r) ` {..<n} \<subseteq> {..<k}" using p by auto
  ultimately have "card {..<n} \<le> card {..<k}" by (intro card_inj_on_le) simp_all
  then show False using k by simp
qed

lemma pivot_lane_props:
  fixes st :: "'a::linordered_field block_state"
  assumes sh: "shape g m st" and inv: "piv_inv n g k st" and k: "k < n" and ng: "n \<le> g"
  shows "pivot_lane i st < n"
    and "\<not> pivoted st ! pivot_lane i st"
    and "\<And>r. r < n \<Longrightarrow> \<not> pivoted st ! r \<Longrightarrow>
           abs (rows st ! r ! i) \<le> abs (rows st ! pivot_lane i st ! i)"
proof -
  let ?d = "map (\<lambda>row. row ! i) (rows st)"
  have len: "length ?d = g" using sh by (simp add: shape_def)
  from exists_unpivoted [OF inv k] obtain r0 where r0: "r0 < n" "\<not> pivoted st ! r0" by blast
  have r0g: "r0 < length ?d" using r0 ng len by simp
  note cp = choose_pivot_props [OF r0g r0(2), folded pivot_lane_def]
  show np: "\<not> pivoted st ! pivot_lane i st" using cp(2) .
  have pg: "pivot_lane i st < g" using cp(1) len by simp
  show "pivot_lane i st < n"
  proof (rule ccontr)
    assume "\<not> pivot_lane i st < n"
    then have "pivoted st ! pivot_lane i st" using inv pg unfolding piv_inv_def by simp
    then show False using np by simp
  qed
  show "abs (rows st ! r ! i) \<le> abs (rows st ! pivot_lane i st ! i)"
    if "r < n" "\<not> pivoted st ! r" for r
  proof -
    have rg: "r < length ?d" using that ng len by simp
    have "abs (?d ! r) \<le> abs (?d ! pivot_lane i st)" using cp(3) [OF rg that(2)] .
    then show ?thesis using rg pg len by simp
  qed
qed

lemma invert_step_piv_inv:
  fixes st :: "'a::linordered_field block_state"
  assumes sh: "shape g m st" and inv: "piv_inv n g k st" and k: "k < n" and ng: "n \<le> g"
  shows "piv_inv n g (Suc k) (invert_step m k st)"
proof -
  let ?p = "pivot_lane k st"
  note pl = pivot_lane_props [OF sh inv k ng, of k]
  have pg: "?p < g" using pl(1) ng by simp
  have kg: "k < g" using k ng by simp
  have lens: "length (perm st) = g" "length (trans_perm st) = g" "length (pivoted st) = g"
    using sh by (simp_all add: shape_def)
  have I1: "\<And>r. r < g \<Longrightarrow> n \<le> r \<Longrightarrow> pivoted st ! r"
    and I2: "\<And>c. c < k \<Longrightarrow> trans_perm st ! c < n \<and> pivoted st ! (trans_perm st ! c) \<and>
                perm st ! (trans_perm st ! c) = c"
    and I3: "\<And>r. r < n \<Longrightarrow> pivoted st ! r \<Longrightarrow>
                perm st ! r < k \<and> trans_perm st ! (perm st ! r) = r"
    using inv unfolding piv_inv_def by blast+
  show ?thesis unfolding piv_inv_def invert_step_sel
  proof (intro conjI allI impI)
    fix r assume "r < g" "n \<le> r"
    then show "(pivoted st)[?p := True] ! r"
      using I1 lens by (cases "r = ?p") simp_all
  next
    fix c assume c: "c < Suc k"
    show "(trans_perm st)[k := ?p] ! c < n"
      using c I2 [of c] pl(1) kg lens by (cases "c = k") simp_all
    show "(pivoted st)[?p := True] ! ((trans_perm st)[k := ?p] ! c)"
    proof (cases "c = k")
      case True
      then show ?thesis using kg pg lens by simp
    next
      case False
      then have ck: "c < k" using c by simp
      have "trans_perm st ! c < g" using I2 [OF ck] ng by simp
      then show ?thesis using False I2 [OF ck] lens
        by (cases "trans_perm st ! c = ?p") simp_all
    qed
    show "(perm st)[?p := k] ! ((trans_perm st)[k := ?p] ! c) = c"
    proof (cases "c = k")
      case True
      then show ?thesis using kg pg lens by simp
    next
      case False
      then have ck: "c < k" using c by simp
      have "trans_perm st ! c \<noteq> ?p" using I2 [OF ck] pl(2) by auto
      then show ?thesis using False I2 [OF ck] by simp
    qed
  next
    fix r assume r: "r < n" and pv: "(pivoted st)[?p := True] ! r"
    show "(perm st)[?p := k] ! r < Suc k"
    proof (cases "r = ?p")
      case True
      then show ?thesis using pg lens by simp
    next
      case False
      then have "pivoted st ! r" using pv by simp
      then show ?thesis using False I3 [OF r] by simp
    qed
    show "(trans_perm st)[k := ?p] ! ((perm st)[?p := k] ! r) = r"
    proof (cases "r = ?p")
      case True
      then show ?thesis using pg kg lens by simp
    next
      case False
      then have "pivoted st ! r" using pv by simp
      then have "perm st ! r < k" "trans_perm st ! (perm st ! r) = r" using I3 [OF r] by simp_all
      then show ?thesis using False by simp
    qed
  qed
qed

lemma invert_prefix_Suc:
  "invert_prefix m n (Suc k) st0
     = (if k < n then invert_step m k (invert_prefix m n k st0) else invert_prefix m n k st0)"
  by (simp add: invert_prefix_def)

lemma invert_prefix_beyond: "n \<le> k \<Longrightarrow> invert_prefix m n k st0 = invert_prefix m n n st0"
proof (induction k)
  case 0
  then show ?case by simp
next
  case (Suc k)
  show ?case
  proof (cases "n = Suc k")
    case True
    then show ?thesis by simp
  next
    case False
    then have "n \<le> k" using Suc.prems by simp
    then show ?thesis using Suc.IH by (simp add: invert_prefix_Suc)
  qed
qed

lemma invert_block_prefix:
  "n \<le> m \<Longrightarrow> invert_block m n row perm0 tp0
     = invert_prefix m n n (invert_init n row perm0 tp0)"
  using invert_prefix_beyond [of n m m] by (simp add: invert_block_def invert_prefix_def)

text \<open>The calling contract of \<open>invert_block\<close>: the problem fits the compile-time
  maximum and the group, every lane's row has \<open>max_problem_size\<close> entries, and every lane
  passes its own \<open>perm\<close> and \<open>trans_perm\<close>.\<close>

definition block_ok :: "nat \<Rightarrow> nat \<Rightarrow> 'a list list \<Rightarrow> nat list \<Rightarrow> nat list \<Rightarrow> bool" where
  "block_ok max_problem_size problem_size row perm0 trans_perm0 \<longleftrightarrow>
     problem_size \<le> max_problem_size \<and> problem_size \<le> length row \<and>
     (\<forall>r \<in> {0..<length row}. max_problem_size \<le> length (row ! r)) \<and>
     length perm0 = length row \<and> length trans_perm0 = length row"

lemma invert_init_inv:
  assumes "block_ok m n row perm0 tp0"
  shows "shape (length row) m (invert_init n row perm0 tp0)"
    and "piv_inv n (length row) 0 (invert_init n row perm0 tp0)"
  using assms by (auto simp: block_ok_def shape_def piv_inv_def invert_init_def)

lemma invert_prefix_inv:
  fixes row :: "'a::linordered_field list list"
  assumes ok: "block_ok m n row perm0 tp0"
  shows "k \<le> n \<Longrightarrow>
     shape (length row) m (invert_prefix m n k (invert_init n row perm0 tp0)) \<and>
     piv_inv n (length row) k (invert_prefix m n k (invert_init n row perm0 tp0))"
proof (induction k)
  case 0
  show ?case using invert_init_inv [OF ok] by (simp add: invert_prefix_def)
next
  case (Suc k)
  then have k: "k < n" by simp
  have ng: "n \<le> length row" using ok by (simp add: block_ok_def)
  from Suc.IH k have sh: "shape (length row) m (invert_prefix m n k (invert_init n row perm0 tp0))"
    and pi: "piv_inv n (length row) k (invert_prefix m n k (invert_init n row perm0 tp0))"
    by simp_all
  show ?case
    using invert_step_shape [OF sh] invert_step_piv_inv [OF sh pi k ng] k
    by (simp add: invert_prefix_Suc)
qed

definition pivot_element ::
  "nat \<Rightarrow> nat \<Rightarrow> 'a::{zero,one,plus,times,uminus,inverse,abs,ord} list list \<Rightarrow> nat list \<Rightarrow> nat list \<Rightarrow> nat \<Rightarrow> 'a" where
  "pivot_element max_problem_size problem_size row perm0 trans_perm0 i =
     (let st = invert_prefix max_problem_size problem_size i
                 (invert_init problem_size row perm0 trans_perm0)
      in rows st ! pivot_lane i st ! i)"

lemma invert_prefix_status:
  "status (invert_prefix m n k (invert_init n row perm0 tp0))
     = (\<forall>i < k. i < n \<longrightarrow> pivot_element m n row perm0 tp0 i \<noteq> 0)"
proof (induction k)
  case 0
  show ?case by (simp add: invert_prefix_def invert_init_def)
next
  case (Suc k)
  show ?case
    using Suc
    by (auto simp: invert_prefix_Suc invert_step_status pivot_element_def Let_def less_Suc_eq)
qed

lemma all_pivoted_at_end:
  assumes "piv_inv n g n st" "r < n"
  shows "pivoted st ! r"
proof -
  have tp: "\<And>c. c < n \<Longrightarrow> trans_perm st ! c < n \<and> pivoted st ! (trans_perm st ! c) \<and>
                perm st ! (trans_perm st ! c) = c"
    using assms(1) unfolding piv_inv_def by blast
  have inj: "inj_on (\<lambda>c. trans_perm st ! c) {..<n}"
    by (rule inj_on_inverseI [where g = "\<lambda>r. perm st ! r"]) (use tp in simp)
  have sub: "(\<lambda>c. trans_perm st ! c) ` {..<n} \<subseteq> {..<n}" using tp by auto
  have "card ((\<lambda>c. trans_perm st ! c) ` {..<n}) = card {..<n}" using inj by (rule card_image)
  then have "(\<lambda>c. trans_perm st ! c) ` {..<n} = {..<n}"
    using sub by (intro card_subset_eq) simp_all
  then have "r \<in> (\<lambda>c. trans_perm st ! c) ` {..<n}" using assms(2) by simp
  then obtain c where "c < n" "trans_perm st ! c = r" by auto
  then show ?thesis using tp by auto
qed

lemma zero_row_kept:
  fixes row :: "'a::linordered_field list list"
  assumes ok: "block_ok m n row perm0 tp0"
      and z: "z < n" and zero: "\<And>c. c < n \<Longrightarrow> row ! z ! c = 0"
  shows "k \<le> n \<Longrightarrow> status (invert_prefix m n k (invert_init n row perm0 tp0)) \<Longrightarrow>
     \<not> pivoted (invert_prefix m n k (invert_init n row perm0 tp0)) ! z \<and>
     (\<forall>c < n. rows (invert_prefix m n k (invert_init n row perm0 tp0)) ! z ! c = 0)"
proof (induction k)
  case 0
  have "z < length row" using ok z by (simp add: block_ok_def)
  then show ?case using z zero by (simp add: invert_prefix_def invert_init_def)
next
  case (Suc k)
  define st where "st = invert_prefix m n k (invert_init n row perm0 tp0)"
  have k: "k < n" using Suc.prems by simp
  have e: "invert_prefix m n (Suc k) (invert_init n row perm0 tp0) = invert_step m k st"
    using k by (simp add: invert_prefix_Suc st_def)
  have sst: "status st" and nzp: "rows st ! pivot_lane k st ! k \<noteq> 0"
    using Suc.prems(2) unfolding e invert_step_status by simp_all
  have IH: "\<not> pivoted st ! z" "\<And>c. c < n \<Longrightarrow> rows st ! z ! c = 0"
    using Suc.IH k sst unfolding st_def by simp_all
  have sh: "shape (length row) m st" using invert_prefix_inv [OF ok, of k] k unfolding st_def by simp
  have nm: "n \<le> m" and ng: "n \<le> length row" using ok by (simp_all add: block_ok_def)
  have zg: "z < length (rows st)" using sh z ng by (simp add: shape_def)
  have zl: "m \<le> length (rows st ! z)" using sh z ng by (simp add: shape_def)
  have pz: "pivot_lane k st \<noteq> z" using nzp IH(2) [OF k] by auto
  note a = apply_gauss_jordan_transform_nonzero [OF nzp, where m = m and ok = "status st"]
  show ?case unfolding e
  proof (intro conjI allI impI)
    show "\<not> pivoted (invert_step m k st) ! z"
      using IH(1) pz by (simp add: invert_step_sel)
  next
    fix c assume c: "c < n"
    then have cl: "c < length (rows st ! z)" using zl nm by simp
    have cm: "c < m" using c nm by simp
    show "rows (invert_step m k st) ! z ! c = 0"
      unfolding invert_step_sel a(4) [OF zg cl]
      using pz IH(2) [OF c] IH(2) [OF k] cm by (simp add: Let_def)
  qed
qed

text \<open>
  The in-place elimination keeps two matrices in one array: after \<open>k\<close> steps column
  \<open>c < k\<close> of the reduced matrix is a unit vector and is not stored; its place holds a
  column of the accumulated row operations. \<open>Lm\<close> is the reduced matrix and \<open>Rm\<close> the
  accumulated operations, read off a state.
\<close>

definition Lm :: "nat \<Rightarrow> 'a::linordered_field block_state \<Rightarrow> nat \<Rightarrow> nat \<Rightarrow> 'a" where
  "Lm k st r c = (if c < k then (if r = trans_perm st ! c then 1 else 0) else rows st ! r ! c)"

definition Rm :: "'a::linordered_field block_state \<Rightarrow> nat \<Rightarrow> nat \<Rightarrow> 'a" where
  "Rm st r q = (if pivoted st ! q then rows st ! r ! (perm st ! q)
                else (if r = q then 1 else 0))"

lemma rowop:
  fixes st :: "'a::linordered_field block_state"
  assumes sh: "shape g m st" and inv: "piv_inv n g k st" and k: "k < n" and ng: "n \<le> g"
      and nm: "n \<le> m" and nz: "rows st ! pivot_lane k st ! k \<noteq> 0"
  shows "\<And>r c. r < n \<Longrightarrow> c < n \<Longrightarrow>
           Lm (Suc k) (invert_step m k st) r c
             = (if r = pivot_lane k st
                then Lm k st (pivot_lane k st) c / rows st ! pivot_lane k st ! k
                else Lm k st r c - rows st ! r ! k / rows st ! pivot_lane k st ! k
                                     * Lm k st (pivot_lane k st) c)"
    and "\<And>r q. r < n \<Longrightarrow> q < n \<Longrightarrow>
           Rm (invert_step m k st) r q
             = (if r = pivot_lane k st
                then Rm st (pivot_lane k st) q / rows st ! pivot_lane k st ! k
                else Rm st r q - rows st ! r ! k / rows st ! pivot_lane k st ! k
                                     * Rm st (pivot_lane k st) q)"
proof -
  let ?p = "pivot_lane k st"
  let ?pi = "rows st ! ?p ! k"
  let ?st' = "invert_step m k st"
  note pl = pivot_lane_props [OF sh inv k ng, of k]
  have lens: "length (perm st) = g" "length (trans_perm st) = g" "length (pivoted st) = g"
    "length (rows st) = g"
    using sh by (simp_all add: shape_def)
  have rowlen: "\<And>r. r < g \<Longrightarrow> m \<le> length (rows st ! r)" using sh by (simp add: shape_def)
  have I2: "\<And>c. c < k \<Longrightarrow> trans_perm st ! c < n \<and> pivoted st ! (trans_perm st ! c) \<and>
                perm st ! (trans_perm st ! c) = c"
    and I3: "\<And>r. r < n \<Longrightarrow> pivoted st ! r \<Longrightarrow>
                perm st ! r < k \<and> trans_perm st ! (perm st ! r) = r"
    using inv unfolding piv_inv_def by blast+
  have pg: "?p < g" using pl(1) ng by simp
  have kg: "k < g" using k ng by simp
  note a = apply_gauss_jordan_transform_nonzero [OF nz, where m = m and ok = "status st"]
  have entry: "rows ?st' ! r ! c
      = (if c = k then (if r = ?p then 1 / ?pi else - (rows st ! r ! k) / ?pi)
         else (if r = ?p then 0 else rows st ! r ! c)
              + (if r = ?p then 1 / ?pi else - (rows st ! r ! k) / ?pi) * rows st ! ?p ! c)"
    if "r < n" "c < n" for r c
  proof -
    have rg: "r < length (rows st)" using that(1) ng lens by simp
    have cl: "c < length (rows st ! r)" using rowlen [of r] that ng nm by simp
    have cm: "c < m" using that(2) nm by simp
    show ?thesis unfolding invert_step_sel a(4) [OF rg cl] using cm by (simp add: Let_def)
  qed
  show "Lm (Suc k) ?st' r c
      = (if r = ?p then Lm k st ?p c / ?pi else Lm k st r c - rows st ! r ! k / ?pi * Lm k st ?p c)"
    if r: "r < n" and c: "c < n" for r c
  proof -
    consider "c < k" | "c = k" | "k < c" by linarith
    then show ?thesis
    proof cases
      case 1
      have ne: "trans_perm st ! c \<noteq> ?p" using I2 [OF 1] pl(2) by auto
      have "Lm (Suc k) ?st' r c = (if r = trans_perm st ! c then 1 else 0)"
        using 1 by (simp add: Lm_def invert_step_sel)
      moreover have "Lm k st ?p c = 0" using 1 ne by (simp add: Lm_def)
      moreover have "Lm k st r c = (if r = trans_perm st ! c then 1 else 0)"
        using 1 by (simp add: Lm_def)
      ultimately show ?thesis using ne by auto
    next
      case 2
      have "Lm (Suc k) ?st' r c = (if r = ?p then 1 else 0)"
        using 2 kg lens by (simp add: Lm_def invert_step_sel)
      moreover have "Lm k st r c = rows st ! r ! k" "Lm k st ?p c = ?pi"
        using 2 by (simp_all add: Lm_def)
      ultimately show ?thesis using nz by simp
    next
      case 3
      have "Lm (Suc k) ?st' r c = rows ?st' ! r ! c" using 3 by (simp add: Lm_def)
      moreover have "Lm k st r c = rows st ! r ! c" "Lm k st ?p c = rows st ! ?p ! c"
        using 3 by (simp_all add: Lm_def)
      ultimately show ?thesis using entry [OF r c] 3 by (simp add: field_simps)
    qed
  qed
  show "Rm ?st' r q
      = (if r = ?p then Rm st ?p q / ?pi else Rm st r q - rows st ! r ! k / ?pi * Rm st ?p q)"
    if r: "r < n" and q: "q < n" for r q
  proof -
    have qg: "q < g" using q ng by simp
    consider "q = ?p" | "q \<noteq> ?p" "pivoted st ! q" | "q \<noteq> ?p" "\<not> pivoted st ! q" by blast
    then show ?thesis
    proof cases
      case 1
      have "Rm ?st' r q = rows ?st' ! r ! k"
        using 1 pg lens by (simp add: Rm_def invert_step_sel)
      moreover have "Rm st r q = (if r = ?p then 1 else 0)" "Rm st ?p q = 1"
        using 1 pl(2) by (simp_all add: Rm_def)
      ultimately show ?thesis using entry [OF r k] by (simp add: field_simps)
    next
      case 2
      have c: "perm st ! q < k" using I3 [OF q 2(2)] by simp
      then have cn: "perm st ! q < n" "perm st ! q \<noteq> k" using k by simp_all
      have "Rm ?st' r q = rows ?st' ! r ! (perm st ! q)"
        using 2 qg lens by (simp add: Rm_def invert_step_sel)
      moreover have "Rm st r q = rows st ! r ! (perm st ! q)"
        "Rm st ?p q = rows st ! ?p ! (perm st ! q)"
        using 2 by (simp_all add: Rm_def)
      ultimately show ?thesis using entry [OF r cn(1)] cn(2) by (simp add: field_simps)
    next
      case 3
      have "Rm ?st' r q = (if r = q then 1 else 0)"
        using 3 by (simp add: Rm_def invert_step_sel)
      moreover have "Rm st r q = (if r = q then 1 else 0)" "Rm st ?p q = 0"
        using 3 by (auto simp: Rm_def)
      ultimately show ?thesis using 3 by auto
    qed
  qed
qed

definition LA1 :: "nat \<Rightarrow> (nat \<Rightarrow> nat \<Rightarrow> 'a::linordered_field) \<Rightarrow> nat \<Rightarrow> 'a block_state \<Rightarrow> bool" where
  "LA1 n A k st \<longleftrightarrow> (\<forall>r < n. \<forall>c < n. Lm k st r c = (\<Sum>q < n. Rm st r q * A q c))"

definition LA2 :: "nat \<Rightarrow> (nat \<Rightarrow> nat \<Rightarrow> 'a::linordered_field) \<Rightarrow> nat \<Rightarrow> 'a block_state \<Rightarrow> bool" where
  "LA2 n A k st \<longleftrightarrow>
     (\<forall>x. (\<forall>r < n. (\<Sum>c < n. Lm k st r c * x c) = 0) \<longrightarrow>
          (\<forall>r < n. (\<Sum>c < n. A r c * x c) = 0))"

lemma LA1_step:
  fixes st :: "'a::linordered_field block_state"
  assumes sh: "shape g m st" and inv: "piv_inv n g k st" and k: "k < n" and ng: "n \<le> g"
      and nm: "n \<le> m" and nz: "rows st ! pivot_lane k st ! k \<noteq> 0"
      and l1: "LA1 n A k st"
  shows "LA1 n A (Suc k) (invert_step m k st)"
proof -
  let ?p = "pivot_lane k st"
  let ?pi = "rows st ! ?p ! k"
  let ?st' = "invert_step m k st"
  let ?f = "\<lambda>r. rows st ! r ! k / ?pi"
  note ro = rowop [OF sh inv k ng nm nz]
  have pn: "?p < n" using pivot_lane_props(1) [OF sh inv k ng] .
  have L: "\<And>r c. r < n \<Longrightarrow> c < n \<Longrightarrow> Lm k st r c = (\<Sum>q < n. Rm st r q * A q c)"
    using l1 unfolding LA1_def by blast
  show "LA1 n A (Suc k) ?st'" unfolding LA1_def
  proof (intro allI impI)
    fix r c assume r: "r < n" and c: "c < n"
    show "Lm (Suc k) ?st' r c = (\<Sum>q < n. Rm ?st' r q * A q c)"
    proof (cases "r = ?p")
      case True
      have pt: "Rm ?st' r q * A q c = Rm st ?p q * A q c / ?pi" if "q < n" for q
        using ro(2) [OF r that] True by simp
      have "(\<Sum>q < n. Rm ?st' r q * A q c) = (\<Sum>q < n. Rm st ?p q * A q c / ?pi)"
        using pt by (intro sum.cong) simp_all
      also have "\<dots> = (\<Sum>q < n. Rm st ?p q * A q c) / ?pi"
        by (simp add: sum_divide_distrib)
      also have "\<dots> = Lm k st ?p c / ?pi" using L [OF pn c] by simp
      finally show ?thesis using ro(1) [OF r c] True by simp
    next
      case False
      have pt: "Rm ?st' r q * A q c = Rm st r q * A q c - ?f r * (Rm st ?p q * A q c)"
        if "q < n" for q
      proof -
        have "Rm ?st' r q = Rm st r q - ?f r * Rm st ?p q" using ro(2) [OF r that] False by simp
        then show ?thesis by (simp only: left_diff_distrib mult.assoc)
      qed
      have "(\<Sum>q < n. Rm ?st' r q * A q c)
          = (\<Sum>q < n. Rm st r q * A q c - ?f r * (Rm st ?p q * A q c))"
        using pt by (intro sum.cong) simp_all
      also have "\<dots> = (\<Sum>q < n. Rm st r q * A q c) - ?f r * (\<Sum>q < n. Rm st ?p q * A q c)"
        by (simp add: sum_subtractf sum_distrib_left)
      also have "\<dots> = Lm k st r c - ?f r * Lm k st ?p c" using L [OF r c] L [OF pn c] by simp
      finally show ?thesis using ro(1) [OF r c] False by simp
    qed
  qed
qed

lemma LA2_step:
  fixes st :: "'a::linordered_field block_state"
  assumes sh: "shape g m st" and inv: "piv_inv n g k st" and k: "k < n" and ng: "n \<le> g"
      and nm: "n \<le> m" and nz: "rows st ! pivot_lane k st ! k \<noteq> 0"
      and l2: "LA2 n A k st"
  shows "LA2 n A (Suc k) (invert_step m k st)"
proof -
  let ?p = "pivot_lane k st"
  let ?pi = "rows st ! ?p ! k"
  let ?st' = "invert_step m k st"
  let ?f = "\<lambda>r. rows st ! r ! k / ?pi"
  note ro = rowop [OF sh inv k ng nm nz]
  have pn: "?p < n" using pivot_lane_props(1) [OF sh inv k ng] .
  show "LA2 n A (Suc k) ?st'" unfolding LA2_def
  proof (intro allI impI)
    fix x :: "nat \<Rightarrow> 'a" and r
    assume z: "\<forall>r < n. (\<Sum>c < n. Lm (Suc k) ?st' r c * x c) = 0" and r: "r < n"
    have zp: "(\<Sum>c < n. Lm (Suc k) ?st' ?p c * x c) = 0" using z pn by blast
    have Lp: "(\<Sum>c < n. Lm k st ?p c * x c) = 0"
    proof -
      have pt: "Lm k st ?p c * x c = ?pi * (Lm (Suc k) ?st' ?p c * x c)" if "c < n" for c
      proof -
        have "Lm (Suc k) ?st' ?p c = Lm k st ?p c / ?pi" using ro(1) [OF pn that] by simp
        then show ?thesis using nz by simp
      qed
      have "(\<Sum>c < n. Lm k st ?p c * x c) = (\<Sum>c < n. ?pi * (Lm (Suc k) ?st' ?p c * x c))"
        using pt by (intro sum.cong) simp_all
      also have "\<dots> = ?pi * (\<Sum>c < n. Lm (Suc k) ?st' ?p c * x c)"
        by (simp add: sum_distrib_left)
      finally show ?thesis using zp by simp
    qed
    have "(\<Sum>c < n. Lm k st r' c * x c) = 0" if r': "r' < n" for r'
    proof (cases "r' = ?p")
      case True
      then show ?thesis using Lp by simp
    next
      case False
      have pt: "Lm k st r' c * x c = Lm (Suc k) ?st' r' c * x c + ?f r' * (Lm k st ?p c * x c)"
        if "c < n" for c
      proof -
        have "Lm (Suc k) ?st' r' c = Lm k st r' c - ?f r' * Lm k st ?p c"
          using ro(1) [OF r' that] False by simp
        then have "Lm k st r' c = Lm (Suc k) ?st' r' c + ?f r' * Lm k st ?p c" by simp
        then show ?thesis by (simp only: distrib_right mult.assoc)
      qed
      have "(\<Sum>c < n. Lm k st r' c * x c)
          = (\<Sum>c < n. Lm (Suc k) ?st' r' c * x c + ?f r' * (Lm k st ?p c * x c))"
        using pt by (intro sum.cong) simp_all
      also have "\<dots> = (\<Sum>c < n. Lm (Suc k) ?st' r' c * x c)
                         + ?f r' * (\<Sum>c < n. Lm k st ?p c * x c)"
        by (simp add: sum.distrib sum_distrib_left)
      finally show ?thesis using z r' Lp by simp
    qed
    then show "(\<Sum>c < n. A r c * x c) = 0" using l2 r unfolding LA2_def by blast
  qed
qed

definition trivial_kernel :: "nat \<Rightarrow> (nat \<Rightarrow> nat \<Rightarrow> 'a::linordered_field) \<Rightarrow> bool" where
  "trivial_kernel n A \<longleftrightarrow>
     (\<forall>x. (\<forall>r < n. (\<Sum>c < n. A r c * x c) = 0) \<longrightarrow> (\<forall>c < n. x c = 0))"

lemma pivot_nonzero:
  fixes st :: "'a::linordered_field block_state"
  assumes sh: "shape g m st" and inv: "piv_inv n g k st" and k: "k < n" and ng: "n \<le> g"
      and l2: "LA2 n A k st" and tk: "trivial_kernel n A"
  shows "rows st ! pivot_lane k st ! k \<noteq> 0"
proof
  let ?p = "pivot_lane k st"
  assume zero: "rows st ! ?p ! k = 0"
  note pl = pivot_lane_props [OF sh inv k ng, where i = k]
  have unp: "rows st ! r ! k = 0" if "r < n" "\<not> pivoted st ! r" for r
    using pl(3) [OF that] zero by simp
  have I2: "\<And>c. c < k \<Longrightarrow> trans_perm st ! c < n \<and> pivoted st ! (trans_perm st ! c) \<and>
                perm st ! (trans_perm st ! c) = c"
    and I3: "\<And>r. r < n \<Longrightarrow> pivoted st ! r \<Longrightarrow>
                perm st ! r < k \<and> trans_perm st ! (perm st ! r) = r"
    using inv unfolding piv_inv_def by blast+
  define x :: "nat \<Rightarrow> 'a" where
    "x c = (if c = k then 1 else if c < k then - (rows st ! (trans_perm st ! c) ! k) else 0)" for c
  have "(\<Sum>c < n. Lm k st r c * x c) = 0" if r: "r < n" for r
  proof (cases "pivoted st ! r")
    case False
    have t0: "Lm k st r c * x c = 0" for c
    proof -
      consider "c < k" | "c = k" | "k < c" by linarith
      then show ?thesis
      proof cases
        case 1
        then have "trans_perm st ! c \<noteq> r" using I2 [OF 1] False by auto
        then show ?thesis using 1 by (simp add: Lm_def)
      next
        case 2
        then show ?thesis using unp [OF r False] by (simp add: Lm_def)
      next
        case 3
        then show ?thesis by (simp add: x_def)
      qed
    qed
    show ?thesis unfolding t0 by simp
  next
    case True
    note p = I3 [OF r True]
    have tm: "Lm k st r c * x c
        = (if c = perm st ! r then - (rows st ! r ! k) else 0) + (if c = k then rows st ! r ! k else 0)"
      for c
    proof -
      consider "c < k" | "c = k" | "k < c" by linarith
      then show ?thesis
      proof cases
        case 1
        have "(r = trans_perm st ! c) = (c = perm st ! r)" using I2 [OF 1] p by auto
        then show ?thesis using 1 p by (auto simp: Lm_def x_def)
      next
        case 2
        then show ?thesis using p by (simp add: Lm_def x_def)
      next
        case 3
        then show ?thesis using p by (simp add: x_def)
      qed
    qed
    have pn: "perm st ! r < n" using p k by simp
    have "(\<Sum>c < n. Lm k st r c * x c)
        = (\<Sum>c < n. if c = perm st ! r then - (rows st ! r ! k) else 0)
          + (\<Sum>c < n. if c = k then rows st ! r ! k else 0)"
      unfolding tm by (simp add: sum.distrib)
    then show ?thesis using pn k by (simp add: sum.delta)
  qed
  then have "\<forall>r < n. (\<Sum>c < n. A r c * x c) = 0" using l2 unfolding LA2_def by blast
  then have "x k = 0" using tk k unfolding trivial_kernel_def by blast
  then show False by (simp add: x_def)
qed

text \<open>Vocabulary of the statements: a list of rows as a matrix, the returned matrix
  unpermuted with the returned permutation vectors, "the product of the leading
  \<open>n\<close>-by-\<open>n\<close> blocks is the identity", and non-singularity as the existence of a
  two-sided inverse.\<close>

definition mat_of :: "'a list list \<Rightarrow> nat \<Rightarrow> nat \<Rightarrow> 'a" where
  "mat_of M r c = M ! r ! c"

definition unpermuted :: "'a block_state \<Rightarrow> nat \<Rightarrow> nat \<Rightarrow> 'a" where
  "unpermuted st i j = rows st ! (trans_perm st ! i) ! (perm st ! j)"

definition mat_mult_id ::
  "nat \<Rightarrow> (nat \<Rightarrow> nat \<Rightarrow> 'a::linordered_field) \<Rightarrow> (nat \<Rightarrow> nat \<Rightarrow> 'a) \<Rightarrow> bool" where
  "mat_mult_id n X Y \<longleftrightarrow>
     (\<forall>i \<in> {..<n}. \<forall>j \<in> {..<n}. (\<Sum>q \<in> {..<n}. X i q * Y q j) = (if i = j then 1 else 0))"

definition nonsingular :: "nat \<Rightarrow> (nat \<Rightarrow> nat \<Rightarrow> 'a::linordered_field) \<Rightarrow> bool" where
  "nonsingular n M \<longleftrightarrow> (\<exists>N. mat_mult_id n N M \<and> mat_mult_id n M N)"

lemma sum_delta_left:
  fixes f :: "nat \<Rightarrow> 'a::linordered_field"
  assumes "i < n"
  shows "(\<Sum>j < n. (if i = j then 1 else 0) * f j) = f i"
proof -
  have "(\<Sum>j < n. (if i = j then 1 else 0) * f j) = (\<Sum>j < n. if j = i then f j else 0)"
    by (intro sum.cong) auto
  then show ?thesis using assms by simp
qed

lemma sum_delta_right:
  fixes f :: "nat \<Rightarrow> 'a::linordered_field"
  assumes "i < n"
  shows "(\<Sum>j < n. f j * (if j = i then 1 else 0)) = f i"
proof -
  have "(\<Sum>j < n. f j * (if j = i then 1 else 0)) = (\<Sum>j < n. if j = i then f j else 0)"
    by (intro sum.cong) auto
  then show ?thesis using assms by simp
qed

lemma left_inverse_trivial_kernel:
  fixes M :: "nat \<Rightarrow> nat \<Rightarrow> 'a::linordered_field"
  assumes "mat_mult_id n N M"
  shows "trivial_kernel n M"
  unfolding trivial_kernel_def
proof (intro allI impI)
  fix x :: "nat \<Rightarrow> 'a" and c
  assume z: "\<forall>r < n. (\<Sum>c < n. M r c * x c) = 0" and c: "c < n"
  have "x c = (\<Sum>j < n. (if c = j then 1 else 0) * x j)" using c by (simp add: sum_delta_left)
  also have "\<dots> = (\<Sum>j < n. (\<Sum>q < n. N c q * M q j) * x j)"
    using assms c unfolding mat_mult_id_def by (intro sum.cong) simp_all
  also have "\<dots> = (\<Sum>j < n. \<Sum>q < n. N c q * (M q j * x j))"
    by (simp add: sum_distrib_right mult.assoc)
  also have "\<dots> = (\<Sum>q < n. \<Sum>j < n. N c q * (M q j * x j))" by (rule sum.swap)
  also have "\<dots> = (\<Sum>q < n. N c q * (\<Sum>j < n. M q j * x j))"
    by (simp add: sum_distrib_left)
  also have "\<dots> = 0" using z by simp
  finally show "x c = 0" .
qed

lemma left_inverse_unique:
  fixes M :: "nat \<Rightarrow> nat \<Rightarrow> 'a::linordered_field"
  assumes YM: "mat_mult_id n Y M" and MN: "mat_mult_id n M N" and i: "i < n" and j: "j < n"
  shows "Y i j = N i j"
proof -
  have "Y i j = (\<Sum>q < n. Y i q * (if q = j then 1 else 0))" using j by (simp add: sum_delta_right)
  also have "\<dots> = (\<Sum>q < n. Y i q * (\<Sum>s < n. M q s * N s j))"
    using MN j unfolding mat_mult_id_def by (intro sum.cong) simp_all
  also have "\<dots> = (\<Sum>q < n. \<Sum>s < n. (Y i q * M q s) * N s j)"
    by (simp add: sum_distrib_left mult.assoc)
  also have "\<dots> = (\<Sum>s < n. \<Sum>q < n. (Y i q * M q s) * N s j)" by (rule sum.swap)
  also have "\<dots> = (\<Sum>s < n. (\<Sum>q < n. Y i q * M q s) * N s j)"
    by (simp add: sum_distrib_right)
  also have "\<dots> = (\<Sum>s < n. (if i = s then 1 else 0) * N s j)"
    using YM i unfolding mat_mult_id_def by (intro sum.cong) simp_all
  also have "\<dots> = N i j" using i by (simp add: sum_delta_left)
  finally show ?thesis .
qed

lemma invert_prefix_LA:
  fixes row :: "'a::linordered_field list list"
  assumes ok: "block_ok m n row perm0 tp0" and tk: "trivial_kernel n (mat_of row)"
  shows "k \<le> n \<Longrightarrow>
     status (invert_prefix m n k (invert_init n row perm0 tp0)) \<and>
     LA1 n (mat_of row) k (invert_prefix m n k (invert_init n row perm0 tp0)) \<and>
     LA2 n (mat_of row) k (invert_prefix m n k (invert_init n row perm0 tp0))"
proof (induction k)
  case 0
  have ng: "n \<le> length row" using ok by (simp add: block_ok_def)
  have e: "invert_prefix m n 0 (invert_init n row perm0 tp0) = invert_init n row perm0 tp0"
    by (simp add: invert_prefix_def)
  have R: "Rm (invert_init n row perm0 tp0) r q = (if r = q then 1 else 0)" if "q < n" for r q
    using that ng by (simp add: Rm_def invert_init_def)
  have L: "Lm 0 (invert_init n row perm0 tp0) r c = mat_of row r c" for r c
    by (simp add: Lm_def invert_init_def mat_of_def)
  have "(\<Sum>q < n. Rm (invert_init n row perm0 tp0) r q * mat_of row q c) = mat_of row r c"
    if "r < n" for r c
  proof -
    have "(\<Sum>q < n. Rm (invert_init n row perm0 tp0) r q * mat_of row q c)
        = (\<Sum>q < n. (if r = q then 1 else 0) * mat_of row q c)"
      using R by (intro sum.cong) simp_all
    then show ?thesis using that by (simp add: sum_delta_left)
  qed
  then show ?case unfolding e LA1_def LA2_def L by (simp add: invert_init_def)
next
  case (Suc k)
  define st where "st = invert_prefix m n k (invert_init n row perm0 tp0)"
  have k: "k < n" using Suc.prems by simp
  have e: "invert_prefix m n (Suc k) (invert_init n row perm0 tp0) = invert_step m k st"
    using k by (simp add: invert_prefix_Suc st_def)
  have IH: "status st" "LA1 n (mat_of row) k st" "LA2 n (mat_of row) k st"
    using Suc.IH k unfolding st_def by simp_all
  have sh: "shape (length row) m st" and pi: "piv_inv n (length row) k st"
    using invert_prefix_inv [OF ok, of k] k unfolding st_def by simp_all
  have nm: "n \<le> m" and ng: "n \<le> length row" using ok by (simp_all add: block_ok_def)
  have nz: "rows st ! pivot_lane k st ! k \<noteq> 0"
    using pivot_nonzero [OF sh pi k ng IH(3) tk] .
  show ?case unfolding e
    using LA1_step [OF sh pi k ng nm nz IH(2)] LA2_step [OF sh pi k ng nm nz IH(3)] IH(1) nz
    by (simp add: invert_step_status)
qed

lemma LA1_init:
  fixes row :: "'a::linordered_field list list"
  assumes ng: "n \<le> length row"
  shows "LA1 n (mat_of row) 0 (invert_init n row perm0 tp0)"
proof -
  have R: "Rm (invert_init n row perm0 tp0) r q = (if r = q then 1 else 0)" if "q < n" for r q
    using that ng by (simp add: Rm_def invert_init_def)
  have L: "Lm 0 (invert_init n row perm0 tp0) r c = mat_of row r c" for r c
    by (simp add: Lm_def invert_init_def mat_of_def)
  have "(\<Sum>q < n. Rm (invert_init n row perm0 tp0) r q * mat_of row q c) = mat_of row r c"
    if "r < n" for r c
  proof -
    have "(\<Sum>q < n. Rm (invert_init n row perm0 tp0) r q * mat_of row q c)
        = (\<Sum>q < n. (if r = q then 1 else 0) * mat_of row q c)"
      using R by (intro sum.cong) simp_all
    then show ?thesis using that by (simp add: sum_delta_left)
  qed
  then show ?thesis unfolding LA1_def L by simp
qed

lemma invert_prefix_LA1:
  fixes row :: "'a::linordered_field list list"
  assumes ok: "block_ok m n row perm0 tp0"
  shows "k \<le> n \<Longrightarrow> status (invert_prefix m n k (invert_init n row perm0 tp0)) \<Longrightarrow>
     LA1 n (mat_of row) k (invert_prefix m n k (invert_init n row perm0 tp0))"
proof (induction k)
  case 0
  have ng: "n \<le> length row" using ok by (simp add: block_ok_def)
  show ?case using LA1_init [OF ng] by (simp add: invert_prefix_def)
next
  case (Suc k)
  define st where "st = invert_prefix m n k (invert_init n row perm0 tp0)"
  have k: "k < n" using Suc.prems by simp
  have e: "invert_prefix m n (Suc k) (invert_init n row perm0 tp0) = invert_step m k st"
    using k by (simp add: invert_prefix_Suc st_def)
  have sst: "status st" and nz: "rows st ! pivot_lane k st ! k \<noteq> 0"
    using Suc.prems(2) unfolding e invert_step_status by simp_all
  have IH: "LA1 n (mat_of row) k st" using Suc.IH k sst unfolding st_def by simp
  have sh: "shape (length row) m st" and pi: "piv_inv n (length row) k st"
    using invert_prefix_inv [OF ok, of k] k unfolding st_def by simp_all
  have nm: "n \<le> m" and ng: "n \<le> length row" using ok by (simp_all add: block_ok_def)
  show ?case unfolding e using LA1_step [OF sh pi k ng nm nz IH] .
qed

lemma status_left_inverse:
  fixes row :: "'a::linordered_field list list"
  assumes ok: "block_ok m n row perm0 tp0"
      and st: "status (invert_block m n row perm0 tp0)"
  shows "mat_mult_id n (unpermuted (invert_block m n row perm0 tp0)) (mat_of row)"
proof -
  define st where "st = invert_prefix m n n (invert_init n row perm0 tp0)"
  have nm: "n \<le> m" using ok by (simp add: block_ok_def)
  have e: "invert_block m n row perm0 tp0 = st"
    using invert_block_prefix [OF nm] by (simp add: st_def)
  have la: "LA1 n (mat_of row) n st"
    using invert_prefix_LA1 [OF ok, of n] assms(2) unfolding e st_def by simp
  have pi: "piv_inv n (length row) n st"
    using invert_prefix_inv [OF ok, of n] unfolding st_def by simp
  have tp: "\<And>c. c < n \<Longrightarrow> trans_perm st ! c < n \<and> perm st ! (trans_perm st ! c) = c"
    using pi unfolding piv_inv_def by blast
  show ?thesis unfolding e mat_mult_id_def
  proof (intro ballI)
    fix i j assume "i \<in> {..<n}" "j \<in> {..<n}"
    then have i: "i < n" and j: "j < n" by simp_all
    have ti: "trans_perm st ! i < n" using tp [OF i] by simp
    have "(\<Sum>q \<in> {..<n}. unpermuted st i q * mat_of row q j)
        = (\<Sum>q \<in> {..<n}. Rm st (trans_perm st ! i) q * mat_of row q j)"
      using all_pivoted_at_end [OF pi] by (intro sum.cong) (simp_all add: unpermuted_def Rm_def)
    also have "\<dots> = Lm n st (trans_perm st ! i) j"
      using la ti j unfolding LA1_def by simp
    also have "\<dots> = (if trans_perm st ! i = trans_perm st ! j then 1 else 0)"
      using j by (simp add: Lm_def)
    also have "\<dots> = (if i = j then 1 else 0)"
      using tp [OF i] tp [OF j] by (metis (full_types))
    finally show "(\<Sum>q \<in> {..<n}. unpermuted st i q * mat_of row q j) = (if i = j then 1 else 0)" .
  qed
qed

text \<open>
  Claim C2. For every non-singular \<open>n\<close>-by-\<open>n\<close> matrix handed row-per-lane to
  \<open>invert_block\<close> with \<open>n \<le> max_problem_size\<close>, the routine returns true, and the
  returned matrix \<open>X\<close>, with its rows permuted by \<open>trans_perm\<close> and its columns by
  \<open>perm\<close>, is the exact inverse: multiplied with the input from either side it gives the
  identity.
\<close>

theorem invert_block_inverse:
  fixes row :: "'a::linordered_field list list"
  assumes "block_ok max_problem_size problem_size row perm0 trans_perm0"
      and "nonsingular problem_size (mat_of row)"
  shows "status (invert_block max_problem_size problem_size row perm0 trans_perm0) \<and>
         mat_mult_id problem_size
           (unpermuted (invert_block max_problem_size problem_size row perm0 trans_perm0))
           (mat_of row) \<and>
         mat_mult_id problem_size (mat_of row)
           (unpermuted (invert_block max_problem_size problem_size row perm0 trans_perm0))"
proof -
  let ?n = problem_size and ?m = max_problem_size
  define st where "st = invert_prefix ?m ?n ?n (invert_init ?n row perm0 trans_perm0)"
  have nm: "?n \<le> ?m" using assms(1) by (simp add: block_ok_def)
  have e: "invert_block ?m ?n row perm0 trans_perm0 = st"
    using invert_block_prefix [OF nm] by (simp add: st_def)
  from assms(2) obtain N where N: "mat_mult_id ?n N (mat_of row)" "mat_mult_id ?n (mat_of row) N"
    unfolding nonsingular_def by blast
  note tk = left_inverse_trivial_kernel [OF N(1)]
  have la: "status st"
    using invert_prefix_LA [OF assms(1) tk, of ?n] unfolding st_def by simp
  have left: "mat_mult_id ?n (unpermuted st) (mat_of row)"
    using status_left_inverse [OF assms(1)] la(1) unfolding e by simp
  have right: "mat_mult_id ?n (mat_of row) (unpermuted st)"
    unfolding mat_mult_id_def
  proof (intro ballI)
    fix i j assume "i \<in> {..<?n}" "j \<in> {..<?n}"
    then have i: "i < ?n" and j: "j < ?n" by simp_all
    have "(\<Sum>q \<in> {..<?n}. mat_of row i q * unpermuted st q j)
        = (\<Sum>q \<in> {..<?n}. mat_of row i q * N q j)"
      using left_inverse_unique [OF left N(2) _ j] by (intro sum.cong) simp_all
    then show "(\<Sum>q \<in> {..<?n}. mat_of row i q * unpermuted st q j) = (if i = j then 1 else 0)"
      using N(2) i j unfolding mat_mult_id_def by simp
  qed
  show ?thesis unfolding e using la(1) left right by simp
qed

text \<open>The theorem at a 3-by-3 problem in a group of four lanes with
  \<open>max_problem_size = 4\<close>, over the rationals.\<close>

theorem invert_block_inverse_witness:
  "block_ok 4 3 [[1, 2, 3, 9], [4, 5, 6, 9], [7, 8, 10, 9], [0, 0, 0, 0 :: rat]]
     [0, 1, 2, 3] [0, 1, 2, 3] \<and>
   nonsingular 3 (mat_of [[1, 2, 3, 9], [4, 5, 6, 9], [7, 8, 10, 9], [0, 0, 0, 0 :: rat]]) \<and>
   status (invert_block 4 3 [[1, 2, 3, 9], [4, 5, 6, 9], [7, 8, 10, 9], [0, 0, 0, 0 :: rat]]
     [0, 1, 2, 3] [0, 1, 2, 3]) \<and>
   mat_mult_id 3
     (unpermuted (invert_block 4 3
        [[1, 2, 3, 9], [4, 5, 6, 9], [7, 8, 10, 9], [0, 0, 0, 0 :: rat]]
        [0, 1, 2, 3] [0, 1, 2, 3]))
     (mat_of [[1, 2, 3, 9], [4, 5, 6, 9], [7, 8, 10, 9], [0, 0, 0, 0 :: rat]]) \<and>
   mat_mult_id 3
     (mat_of [[1, 2, 3, 9], [4, 5, 6, 9], [7, 8, 10, 9], [0, 0, 0, 0 :: rat]])
     (unpermuted (invert_block 4 3
        [[1, 2, 3, 9], [4, 5, 6, 9], [7, 8, 10, 9], [0, 0, 0, 0 :: rat]]
        [0, 1, 2, 3] [0, 1, 2, 3]))"
proof -
  let ?M = "[[1, 2, 3, 9], [4, 5, 6, 9], [7, 8, 10, 9], [0, 0, 0, 0 :: rat]]"
  let ?N = "[[- 2 / 3, - 4 / 3, 1], [- 2 / 3, 11 / 3, - 2], [1, - 2, 1 :: rat]]"
  have h1: "block_ok 4 3 ?M [0, 1, 2, 3] [0, 1, 2, 3]" by code_simp
  have "mat_mult_id 3 (mat_of ?N) (mat_of ?M) \<and> mat_mult_id 3 (mat_of ?M) (mat_of ?N)"
    by code_simp
  then have h2: "nonsingular 3 (mat_of ?M)" unfolding nonsingular_def by blast
  from invert_block_inverse [OF h1 h2] h1 h2 show ?thesis by blast
qed

subsection \<open>A run on floating-point values\<close>

text \<open>
  The largest power of two among the finite binary64 values. On the matrix
  \<open>overflow_matrix\<close>, whose third row is zero, the first step adds the first row to the
  second, which overflows to infinity in columns 1 and 2; the second step takes the
  infinite entry as its pivot, and every lane adds its factor \<open>0\<close> times the infinite
  key row entry to column 2, which is NaN; the third step finds the pivot element NaN,
  which does not compare equal to zero. Every operation of this run is exact in binary64.
\<close>

definition big :: rat where
  "big = 2 ^ 1023"

definition overflow_matrix :: "fval list list" where
  "overflow_matrix =
     [[Fin 1, Fin big, Fin big], [Fin (- 1), Fin big, Fin big], [Fin 0, Fin 0, Fin 0]]"

lemma overflow_big:
  "overflow 0 = Fin 0" "overflow 1 = Fin 1" "overflow (- 1) = Fin (- 1)"
  "overflow big = Fin big" "overflow (- big) = Fin (- big)"
  "overflow (2 * big) = PInf" "overflow (big + big) = PInf"
  by (simp_all add: overflow_def fmax_def big_def)

lemma big_nonzero: "big \<noteq> 0" "0 < big"
  by (simp_all add: big_def)

lemma upt_3: "[0..<3] = [0, 1, 2]" "[0..<Suc (Suc (Suc 0))] = [0, 1, 2]"
  by (simp_all add: upt_rec)

lemmas fval_ops = plus_fval_def times_fval_def divide_fval_def uminus_fval_def abs_fval_def
  less_fval_def zero_fval_def one_fval_def inf_signed_def overflow_big big_nonzero

lemma overflow_step_0:
  "invert_step 3 0 (invert_init 3 overflow_matrix [0, 1, 2] [0, 1, 2])
     = \<lparr>rows = [[Fin 1, Fin big, Fin big], [Fin 1, PInf, PInf], [Fin 0, Fin 0, Fin 0]],
        perm = [0, 1, 2], trans_perm = [0, 1, 2], pivoted = [True, False, False],
        status = True\<rparr>"
  by (simp add: overflow_matrix_def invert_init_def invert_step_def
      apply_gauss_jordan_transform_def choose_pivot_def transform_row_def upt_3 fval_ops Let_def)

lemma overflow_step_1:
  "invert_step 3 1
     \<lparr>rows = [[Fin 1, Fin big, Fin big], [Fin 1, PInf, PInf], [Fin 0, Fin 0, Fin 0]],
      perm = [0, 1, 2], trans_perm = [0, 1, 2], pivoted = [True, False, False],
      status = True\<rparr>
     = \<lparr>rows = [[Fin 1, Fin 0, NaN], [Fin 0, Fin 0, NaN], [Fin 0, Fin 0, NaN]],
        perm = [0, 1, 2], trans_perm = [0, 1, 2], pivoted = [True, True, False],
        status = True\<rparr>"
  by (simp add: invert_step_def apply_gauss_jordan_transform_def choose_pivot_def
      transform_row_def upt_3 fval_ops Let_def)

lemma overflow_step_2:
  "invert_step 3 2
     \<lparr>rows = [[Fin 1, Fin 0, NaN], [Fin 0, Fin 0, NaN], [Fin 0, Fin 0, NaN]],
      perm = [0, 1, 2], trans_perm = [0, 1, 2], pivoted = [True, True, False],
      status = True\<rparr>
     = \<lparr>rows = [[NaN, NaN, NaN], [NaN, NaN, NaN], [NaN, NaN, NaN]],
        perm = [0, 1, 2], trans_perm = [0, 1, 2], pivoted = [True, True, True],
        status = True\<rparr>"
  by (simp add: invert_step_def apply_gauss_jordan_transform_def choose_pivot_def
      transform_row_def upt_3 fval_ops Let_def)

lemma overflow_run:
  "invert_block 3 3 overflow_matrix [0, 1, 2] [0, 1, 2]
     = \<lparr>rows = [[NaN, NaN, NaN], [NaN, NaN, NaN], [NaN, NaN, NaN]],
        perm = [0, 1, 2], trans_perm = [0, 1, 2], pivoted = [True, True, True],
        status = True\<rparr>"
proof -
  have "invert_block 3 3 overflow_matrix [0, 1, 2] [0, 1, 2]
          = invert_step 3 2 (invert_step 3 1 (invert_step 3 0
              (invert_init 3 overflow_matrix [0, 1, 2] [0, 1, 2])))"
    by (simp add: invert_block_def upt_3)
  then show ?thesis
    by (simp only: overflow_step_0 overflow_step_1 overflow_step_2)
qed

lemma overflow_matrix_zero_row: "overflow_matrix ! 2 = [0, 0, 0]"
  by (simp add: overflow_matrix_def zero_fval_def)

text \<open>
  Claim C3, as the specification states it, for every value type: on the binary64 matrix
  \<open>overflow_matrix\<close>, whose third row is zero, \<open>invert_block\<close> returns true, and what it
  returns is no inverse (every entry is NaN).
\<close>

theorem invert_block_overflow_counterexample:
  "overflow_matrix ! 2 = [0, 0, 0] \<and>
   status (invert_block 3 3 overflow_matrix [0, 1, 2] [0, 1, 2]) \<and>
   rows (invert_block 3 3 overflow_matrix [0, 1, 2] [0, 1, 2])
     = [[NaN, NaN, NaN], [NaN, NaN, NaN], [NaN, NaN, NaN]]"
  unfolding overflow_run overflow_matrix_zero_row by simp

text \<open>
  Claim C3, amended. For every value type (the floating-point values included),
  \<open>invert_block\<close> returns false exactly when some Gauss-Jordan step meets a pivot element
  that is equal to zero. In exact arithmetic moreover: the pivot element of a step is
  zero exactly when every not-yet-pivoted lane holds a zero in the column of that step
  (the max-reduction finds no nonzero candidate); a matrix with an all-zero row among
  the first \<open>problem_size\<close> lanes makes the routine return false; and whenever it returns
  true the unpermuted result multiplied with the input gives the identity, so that true
  is never returned with a wrong inverse.
\<close>

theorem invert_block_failure:
  fixes row :: "'a::linordered_field list list"
    and frow :: "'b::{zero,one,plus,times,uminus,inverse,abs,ord} list list"
  assumes "block_ok max_problem_size problem_size row perm0 trans_perm0"
    and "fn \<le> fm"
  shows "((\<not> status (invert_block fm fn frow fperm ftrans_perm)) =
            (\<exists>i < fn. pivot_element fm fn frow fperm ftrans_perm i = 0)) \<and>
         (\<forall>i < problem_size.
            (pivot_element max_problem_size problem_size row perm0 trans_perm0 i = 0) =
            (\<forall>r < problem_size.
               \<not> pivoted (invert_prefix max_problem_size problem_size i
                       (invert_init problem_size row perm0 trans_perm0)) ! r \<longrightarrow>
               rows (invert_prefix max_problem_size problem_size i
                       (invert_init problem_size row perm0 trans_perm0)) ! r ! i = 0)) \<and>
         ((\<exists>z < problem_size. \<forall>c < problem_size. row ! z ! c = 0) \<longrightarrow>
            \<not> status (invert_block max_problem_size problem_size row perm0 trans_perm0)) \<and>
         (status (invert_block max_problem_size problem_size row perm0 trans_perm0) \<longrightarrow>
            mat_mult_id problem_size
              (unpermuted (invert_block max_problem_size problem_size row perm0 trans_perm0))
              (mat_of row))"
proof -
  let ?n = problem_size and ?m = max_problem_size
  let ?st0 = "invert_init ?n row perm0 trans_perm0"
  have nm: "?n \<le> ?m" and ng: "?n \<le> length row"
    using assms(1) by (simp_all add: block_ok_def)
  have e: "invert_block ?m ?n row perm0 trans_perm0 = invert_prefix ?m ?n ?n ?st0"
    using invert_block_prefix [OF nm] .
  have fe: "invert_block fm fn frow fperm ftrans_perm
              = invert_prefix fm fn fn (invert_init fn frow fperm ftrans_perm)"
    using invert_block_prefix [OF assms(2)] .
  have c1: "(\<not> status (invert_block fm fn frow fperm ftrans_perm)) =
            (\<exists>i < fn. pivot_element fm fn frow fperm ftrans_perm i = 0)"
    unfolding fe invert_prefix_status by auto
  have c2: "(pivot_element ?m ?n row perm0 trans_perm0 i = 0) =
            (\<forall>r < ?n. \<not> pivoted (invert_prefix ?m ?n i ?st0) ! r \<longrightarrow>
               rows (invert_prefix ?m ?n i ?st0) ! r ! i = 0)" if i: "i < ?n" for i
  proof -
    define st where "st = invert_prefix ?m ?n i ?st0"
    have sh: "shape (length row) ?m st" and pi: "piv_inv ?n (length row) i st"
      using invert_prefix_inv [OF assms(1), of i] i unfolding st_def by simp_all
    note pl = pivot_lane_props [OF sh pi i ng, where i = i]
    have pe: "pivot_element ?m ?n row perm0 trans_perm0 i = rows st ! pivot_lane i st ! i"
      by (simp add: pivot_element_def st_def Let_def)
    show ?thesis unfolding pe st_def [symmetric]
    proof
      assume z: "rows st ! pivot_lane i st ! i = 0"
      show "\<forall>r < ?n. \<not> pivoted st ! r \<longrightarrow> rows st ! r ! i = 0"
        using pl(3) z by auto
    next
      assume "\<forall>r < ?n. \<not> pivoted st ! r \<longrightarrow> rows st ! r ! i = 0"
      then show "rows st ! pivot_lane i st ! i = 0" using pl(1,2) by blast
    qed
  qed
  have c3: "\<not> status (invert_block ?m ?n row perm0 trans_perm0)"
    if "\<exists>z < ?n. \<forall>c < ?n. row ! z ! c = 0"
  proof
    assume s: "status (invert_block ?m ?n row perm0 trans_perm0)"
    from that obtain z where z: "z < ?n" "\<And>c. c < ?n \<Longrightarrow> row ! z ! c = 0" by blast
    have "\<not> pivoted (invert_prefix ?m ?n ?n ?st0) ! z"
      using zero_row_kept [OF assms(1) z, of ?n] s unfolding e by simp
    moreover have "pivoted (invert_prefix ?m ?n ?n ?st0) ! z"
      using all_pivoted_at_end [OF _ z(1)] invert_prefix_inv [OF assms(1), of ?n] by blast
    ultimately show False by simp
  qed
  have c4: "mat_mult_id ?n (unpermuted (invert_block ?m ?n row perm0 trans_perm0)) (mat_of row)"
    if "status (invert_block ?m ?n row perm0 trans_perm0)"
    using status_left_inverse [OF assms(1) that] .
  show ?thesis using c1 c2 c3 c4 by blast
qed

text \<open>The theorem at a 3-by-3 matrix of rationals whose second row is zero, and at the
  floating-point matrix \<open>overflow_matrix\<close>, where no pivot element is zero.\<close>

theorem invert_block_failure_witness:
  "block_ok 3 3 [[1, 2, 3], [0, 0, 0], [7, 8, 10 :: rat]] [0, 1, 2] [0, 1, 2] \<and>
   (\<exists>z < 3. \<forall>c < 3. [[1, 2, 3], [0, 0, 0], [7, 8, 10 :: rat]] ! z ! c = 0) \<and>
   \<not> status (invert_block 3 3 [[1, 2, 3], [0, 0, 0], [7, 8, 10 :: rat]] [0, 1, 2] [0, 1, 2]) \<and>
   (\<exists>i < 3. pivot_element 3 3 [[1, 2, 3], [0, 0, 0], [7, 8, 10 :: rat]] [0, 1, 2] [0, 1, 2] i = 0) \<and>
   (3 :: nat) \<le> 3 \<and>
   status (invert_block 3 3 overflow_matrix [0, 1, 2] [0, 1, 2]) \<and>
   \<not> (\<exists>i < 3. pivot_element 3 3 overflow_matrix [0, 1, 2] [0, 1, 2] i = 0)"
proof -
  let ?M = "[[1, 2, 3], [0, 0, 0], [7, 8, 10 :: rat]]"
  have h1: "block_ok 3 3 ?M [0, 1, 2] [0, 1, 2]" by code_simp
  have "\<forall>c < 3. ?M ! 1 ! c = 0"
  proof (intro allI impI)
    fix c :: nat assume "c < 3"
    then consider "c = 0" | "c = 1" | "c = 2" by linarith
    then show "?M ! 1 ! c = 0" by cases simp_all
  qed
  then have h2: "\<exists>z < 3. \<forall>c < 3. ?M ! z ! c = 0" by (intro exI [of _ 1]) simp
  have h3: "(3 :: nat) \<le> 3" by simp
  have h4: "status (invert_block 3 3 overflow_matrix [0, 1, 2] [0, 1, 2])"
    unfolding overflow_run by simp
  note t = invert_block_failure [OF h1 h3, where frow = overflow_matrix
      and fperm = "[0, 1, 2]" and ftrans_perm = "[0, 1, 2]"]
  have a: "\<not> status (invert_block 3 3 ?M [0, 1, 2] [0, 1, 2])" using t h2 by blast
  have b: "\<exists>i < 3. pivot_element 3 3 ?M [0, 1, 2] [0, 1, 2] i = 0"
    using invert_block_failure [OF h1 h3, where frow = ?M
      and fperm = "[0, 1, 2]" and ftrans_perm = "[0, 1, 2]"] a by blast
  have c: "\<not> (\<exists>i < 3. pivot_element 3 3 overflow_matrix [0, 1, 2] [0, 1, 2] i = 0)"
    using t h4 by blast
  show ?thesis using h1 h2 a b h3 h4 c by (intro conjI) assumption+
qed
section \<open>Adaptive block-Jacobi: feasibility of a reduced storage precision\<close>

text \<open>
  Modelled from the spec: the group-wide \<open>reduce\<close> is not among the translated sources.
  The specification speaks of reducing the lanes' values across the group with an
  operator; in the model every lane receives the combination of the values of all
  lanes, taken from lane 0 upwards. The operators used here (\<open>max\<close>, and bitwise
  conjunction) are associative and commutative, so the order is immaterial.
\<close>

fun reduce :: "('b \<Rightarrow> 'b \<Rightarrow> 'b) \<Rightarrow> 'b list \<Rightarrow> 'b" where
  "reduce reduce_op (x # xs) = foldl reduce_op x xs"

text \<open>
  \<open>compute_infinity_norm\<close>: a lane below \<open>num_rows\<close> adds the magnitudes of the first
  \<open>num_cols\<close> entries of its row, the other lanes contribute 0, and the group takes the
  maximum.
\<close>

definition compute_infinity_norm ::
  "nat \<Rightarrow> nat \<Rightarrow> nat \<Rightarrow> 'a::linordered_field list list \<Rightarrow> 'a" where
  "compute_infinity_norm max_problem_size num_rows num_cols row =
     reduce max
       (map (\<lambda>lane.
               if lane < num_rows
               then fold (\<lambda>i sum. if i < num_cols then sum + abs (row ! lane ! i) else sum)
                         [0..<max_problem_size] 0
               else 0)
            [0..<length row])"

text \<open>
  \<open>validate_precision_reduction_feasibility\<close>. The conversion to the reduced type and
  back, \<open>static_cast<ValueType>(static_cast<ReducedType>(x))\<close>, is the parameter
  \<open>round_trip\<close>, and \<open>float_traits<remove_complex<ValueType>>::eps\<close>, a constant of the
  working value type, is the parameter \<open>eps\<close>. The work buffer is a store from addresses
  to values; lane \<open>lane\<close> saves entry \<open>i\<close> at address \<open>i * stride + lane\<close>. The lanes
  are run one after the other in the save and in the restore phase.
\<close>

definition save_lane ::
  "('a \<Rightarrow> 'a) \<Rightarrow> nat \<Rightarrow> nat \<Rightarrow> nat \<Rightarrow> nat \<Rightarrow> 'a list \<times> (nat \<Rightarrow> 'a) \<Rightarrow> 'a list \<times> (nat \<Rightarrow> 'a)" where
  "save_lane round_trip max_block_size block_size stride lane st =
     (if lane < block_size
      then fold (\<lambda>i (row, work).
                   if i < block_size
                   then (row[i := round_trip (row ! i)], work(i * stride + lane := row ! i))
                   else (row, work))
                [0..<max_block_size] st
      else st)"

definition restore_lane ::
  "nat \<Rightarrow> nat \<Rightarrow> nat \<Rightarrow> (nat \<Rightarrow> 'a) \<Rightarrow> nat \<Rightarrow> 'a list \<Rightarrow> 'a list" where
  "restore_lane max_block_size block_size stride work lane row =
     (if lane < block_size
      then fold (\<lambda>i row. if i < block_size then row[i := work (i * stride + lane)] else row)
                [0..<max_block_size] row
      else row)"

definition save_group ::
  "('a \<Rightarrow> 'a) \<Rightarrow> nat \<Rightarrow> nat \<Rightarrow> nat \<Rightarrow> 'a list list \<Rightarrow> (nat \<Rightarrow> 'a)
     \<Rightarrow> 'a list list \<times> (nat \<Rightarrow> 'a)" where
  "save_group round_trip max_block_size block_size stride row work =
     fold (\<lambda>lane (acc, work).
             let (r, work') = save_lane round_trip max_block_size block_size stride lane
                                (row ! lane, work)
             in (acc @ [r], work'))
          [0..<length row] ([], work)"

definition validate_precision_reduction_feasibility ::
  "('a \<Rightarrow> 'a) \<Rightarrow> 'a::linordered_field \<Rightarrow> nat \<Rightarrow> nat \<Rightarrow> 'a list list \<Rightarrow> (nat \<Rightarrow> 'a) \<Rightarrow> nat
     \<Rightarrow> bool \<times> 'a list list \<times> (nat \<Rightarrow> 'a)" where
  "validate_precision_reduction_feasibility round_trip eps max_block_size block_size row work
       stride =
     (let (row1, work1) = save_group round_trip max_block_size block_size stride row work;
          perm0 = [0..<length row];
          trans_perm0 = perm0;
          block_cond = compute_infinity_norm max_block_size block_size block_size row1;
          st = invert_block max_block_size block_size row1 perm0 trans_perm0;
          succeeded = status st;
          block_cond2 = block_cond
                        * compute_infinity_norm max_block_size block_size block_size (rows st);
          row2 = map (\<lambda>lane. restore_lane max_block_size block_size stride work1 lane
                                 (rows st ! lane))
                     [0..<length (rows st)]
      in (succeeded \<and> block_cond2 \<ge> 1 \<and> block_cond2 * eps < 1 / 1000, row2, work1))"

definition inf_norm :: "nat \<Rightarrow> (nat \<Rightarrow> nat \<Rightarrow> 'a::linordered_field) \<Rightarrow> 'a" where
  "inf_norm n A = (if n = 0 then 0 else Max ((\<lambda>r. \<Sum>c \<in> {..<n}. abs (A r c)) ` {..<n}))"

definition round_tripped :: "('a \<Rightarrow> 'a) \<Rightarrow> 'a list list \<Rightarrow> nat \<Rightarrow> nat \<Rightarrow> 'a" where
  "round_tripped round_trip row r c = round_trip (row ! r ! c)"

lemma fold_save_row:
  "length (fst (fold (\<lambda>i (row, work).
           if i < bs then (row[i := rt (row ! i)], work(i * stride + lane := row ! i))
           else (row, work)) [0..<k] (row, work))) = length row \<and>
   (\<forall>i \<ge> k. fst (fold (\<lambda>i (row, work).
           if i < bs then (row[i := rt (row ! i)], work(i * stride + lane := row ! i))
           else (row, work)) [0..<k] (row, work)) ! i = row ! i) \<and>
   (\<forall>a. (\<forall>i < k. i < bs \<longrightarrow> a \<noteq> i * stride + lane) \<longrightarrow>
        snd (fold (\<lambda>i (row, work).
           if i < bs then (row[i := rt (row ! i)], work(i * stride + lane := row ! i))
           else (row, work)) [0..<k] (row, work)) a = work a) \<and>
   (0 < stride \<longrightarrow> (\<forall>i < k. i < bs \<longrightarrow>
        snd (fold (\<lambda>i (row, work).
           if i < bs then (row[i := rt (row ! i)], work(i * stride + lane := row ! i))
           else (row, work)) [0..<k] (row, work)) (i * stride + lane) = row ! i))"
proof (induction k)
  case 0
  show ?case by simp
next
  case (Suc k)
  let ?F = "\<lambda>i (row, work).
           if i < bs then (row[i := rt (row ! i)], work(i * stride + lane := row ! i))
           else (row, work)"
  obtain r w where rw: "fold ?F [0..<k] (row, work) = (r, w)" by (cases "fold ?F [0..<k] (row, work)")
  have IH: "length r = length row" "\<And>i. k \<le> i \<Longrightarrow> r ! i = row ! i"
    "\<And>a. (\<forall>i < k. i < bs \<longrightarrow> a \<noteq> i * stride + lane) \<Longrightarrow> w a = work a"
    "\<And>i. 0 < stride \<Longrightarrow> i < k \<Longrightarrow> i < bs \<Longrightarrow> w (i * stride + lane) = row ! i"
    using Suc rw by simp_all
  have step: "fold ?F [0..<Suc k] (row, work)
      = (if k < bs then (r[k := rt (r ! k)], w(k * stride + lane := r ! k)) else (r, w))"
    using rw by simp
  show ?case unfolding step
  proof (intro conjI allI impI)
    show "length (fst (if k < bs then (r[k := rt (r ! k)], w(k * stride + lane := r ! k))
                       else (r, w))) = length row"
      using IH(1) by simp
  next
    fix i assume "Suc k \<le> i"
    then show "fst (if k < bs then (r[k := rt (r ! k)], w(k * stride + lane := r ! k))
                    else (r, w)) ! i = row ! i"
      using IH(2) [of i] by simp
  next
    fix a assume "\<forall>i < Suc k. i < bs \<longrightarrow> a \<noteq> i * stride + lane"
    then show "snd (if k < bs then (r[k := rt (r ! k)], w(k * stride + lane := r ! k))
                    else (r, w)) a = work a"
      using IH(3) [of a] by simp
  next
    fix i assume st: "0 < stride" and i: "i < Suc k" "i < bs"
    show "snd (if k < bs then (r[k := rt (r ! k)], w(k * stride + lane := r ! k))
               else (r, w)) (i * stride + lane) = row ! i"
    proof (cases "i = k")
      case True
      then show ?thesis using i IH(2) [of k] by simp
    next
      case False
      then have ik: "i < k" using i by simp
      have "i * stride + lane \<noteq> k * stride + lane" using False st by simp
      then show ?thesis using IH(4) [OF st ik i(2)] by simp
    qed
  qed
qed

lemma save_lane_props:
  "length (fst (save_lane rt mbs bs stride lane (row, work))) = length row"
  "(\<forall>i < mbs. i < bs \<longrightarrow> a \<noteq> i * stride + lane) \<Longrightarrow>
     snd (save_lane rt mbs bs stride lane (row, work)) a = work a"
  "0 < stride \<Longrightarrow> lane < bs \<Longrightarrow> i < mbs \<Longrightarrow> i < bs \<Longrightarrow>
     snd (save_lane rt mbs bs stride lane (row, work)) (i * stride + lane) = row ! i"
  using fold_save_row [where bs = bs and rt = rt and stride = stride and lane = lane
      and k = mbs and row = row and work = work]
  by (simp_all add: save_lane_def)

lemma addr_distinct:
  assumes "lane < stride" "lane' < stride" "i * stride + lane = i' * stride + (lane'::nat)"
  shows "lane = lane'"
proof -
  have "(i * stride + lane) mod stride = (i' * stride + lane') mod stride"
    using assms(3) by simp
  then show ?thesis using assms(1,2) by simp
qed

lemma save_group_prefix:
  assumes bs: "bs \<le> stride"
  shows "k \<le> length row \<Longrightarrow>
     length (fst (fold (\<lambda>lane (acc, work).
             let (r, work') = save_lane rt mbs bs stride lane (row ! lane, work)
             in (acc @ [r], work')) [0..<k] ([], work))) = k \<and>
     (\<forall>lane < k. length (fst (fold (\<lambda>lane (acc, work).
             let (r, work') = save_lane rt mbs bs stride lane (row ! lane, work)
             in (acc @ [r], work')) [0..<k] ([], work)) ! lane) = length (row ! lane)) \<and>
     (\<forall>lane < k. \<forall>i < bs. lane < bs \<longrightarrow> i < mbs \<longrightarrow>
        snd (fold (\<lambda>lane (acc, work).
             let (r, work') = save_lane rt mbs bs stride lane (row ! lane, work)
             in (acc @ [r], work')) [0..<k] ([], work)) (i * stride + lane) = row ! lane ! i)"
proof (induction k)
  case 0
  show ?case by simp
next
  case (Suc k)
  let ?F = "\<lambda>lane (acc, work).
             let (r, work') = save_lane rt mbs bs stride lane (row ! lane, work)
             in (acc @ [r], work')"
  obtain acc w where aw: "fold ?F [0..<k] ([], work) = (acc, w)"
    by (cases "fold ?F [0..<k] ([], work)")
  have IH: "length acc = k" "\<And>lane. lane < k \<Longrightarrow> length (acc ! lane) = length (row ! lane)"
    "\<And>lane i. lane < k \<Longrightarrow> i < bs \<Longrightarrow> lane < bs \<Longrightarrow> i < mbs \<Longrightarrow>
        w (i * stride + lane) = row ! lane ! i"
    using Suc aw by simp_all
  let ?sl = "save_lane rt mbs bs stride k (row ! k, w)"
  have step: "fold ?F [0..<Suc k] ([], work) = (acc @ [fst ?sl], snd ?sl)"
    using aw by (simp add: case_prod_beta Let_def)
  note sl = save_lane_props [where rt = rt and mbs = mbs and bs = bs and stride = stride
      and lane = k and row = "row ! k" and work = w]
  show ?case unfolding step
  proof (intro conjI allI impI)
    show "length (fst (acc @ [fst ?sl], snd ?sl)) = Suc k" using IH(1) by simp
  next
    fix lane assume "lane < Suc k"
    then show "length (fst (acc @ [fst ?sl], snd ?sl) ! lane) = length (row ! lane)"
      using IH(1,2) sl(1) by (cases "lane = k") (simp_all add: nth_append)
  next
    fix lane i assume l: "lane < Suc k" "lane < bs" and i: "i < bs" "i < mbs"
    have st: "0 < stride" using bs i(1) by simp
    show "snd (acc @ [fst ?sl], snd ?sl) (i * stride + lane) = row ! lane ! i"
    proof (cases "lane = k")
      case True
      then show ?thesis using sl(3) [OF st _ i(2) i(1)] l(2) by simp
    next
      case False
      then have lk: "lane < k" using l(1) by simp
      have "snd ?sl (i * stride + lane) = w (i * stride + lane)"
      proof (cases "k < bs")
        case kb: False
        then show ?thesis by (simp add: save_lane_def)
      next
        case kb: True
        have "\<forall>i' < mbs. i' < bs \<longrightarrow> i * stride + lane \<noteq> i' * stride + k"
        proof (intro allI impI notI)
          fix i' assume "i * stride + lane = i' * stride + k"
          moreover have "lane < stride" "k < stride" using l(2) kb bs by simp_all
          ultimately have "lane = k" by (rule addr_distinct [rotated 2])
          then show False using False by simp
        qed
        then show ?thesis by (rule sl(2))
      qed
      then show ?thesis using IH(3) [OF lk i(1) l(2) i(2)] by simp
    qed
  qed
qed

lemma save_group_props:
  assumes "bs \<le> stride"
  shows "length (fst (save_group rt mbs bs stride row work)) = length row"
    and "lane < length row \<Longrightarrow>
           length (fst (save_group rt mbs bs stride row work) ! lane) = length (row ! lane)"
    and "lane < length row \<Longrightarrow> lane < bs \<Longrightarrow> i < bs \<Longrightarrow> i < mbs \<Longrightarrow>
           snd (save_group rt mbs bs stride row work) (i * stride + lane) = row ! lane ! i"
  using save_group_prefix [OF assms, where k = "length row" and row = row and rt = rt
      and mbs = mbs and work = work]
  by (simp_all add: save_group_def)

lemma restore_fold:
  "length (fold (\<lambda>i row. if i < bs then row[i := work (i * stride + lane)] else row)
             [0..<k] row) = length row \<and>
   (\<forall>i < length row. fold (\<lambda>i row. if i < bs then row[i := work (i * stride + lane)] else row)
             [0..<k] row ! i
        = (if i < k \<and> i < bs then work (i * stride + lane) else row ! i))"
proof (induction k)
  case 0
  show ?case by simp
next
  case (Suc k)
  let ?r = "fold (\<lambda>i row. if i < bs then row[i := work (i * stride + lane)] else row) [0..<k] row"
  have IH: "length ?r = length row"
    "\<And>i. i < length row \<Longrightarrow> ?r ! i = (if i < k \<and> i < bs then work (i * stride + lane) else row ! i)"
    using Suc by simp_all
  show ?case
  proof (intro conjI allI impI)
    show "length (fold (\<lambda>i row. if i < bs then row[i := work (i * stride + lane)] else row)
             [0..<Suc k] row) = length row"
      using IH(1) by simp
  next
    fix i assume i: "i < length row"
    show "fold (\<lambda>i row. if i < bs then row[i := work (i * stride + lane)] else row)
             [0..<Suc k] row ! i
        = (if i < Suc k \<and> i < bs then work (i * stride + lane) else row ! i)"
      using IH(1) IH(2) [OF i] i by (cases "i = k") (auto simp: less_Suc_eq)
  qed
qed

lemma restore_lane_nth:
  "lane < bs \<Longrightarrow> i < bs \<Longrightarrow> i < mbs \<Longrightarrow> i < length row \<Longrightarrow>
     restore_lane mbs bs stride work lane row ! i = work (i * stride + lane)"
  using restore_fold [where bs = bs and work = work and stride = stride and lane = lane
      and k = mbs and row = row]
  by (simp add: restore_lane_def)

lemma invert_prefix_shape:
  "shape g m st0 \<Longrightarrow> shape g m (invert_prefix m n k st0)"
  by (induction k) (simp_all add: invert_prefix_def invert_step_shape)

lemma invert_block_shape:
  assumes "\<forall>r \<in> {0..<length row}. m \<le> length (row ! r)"
      and "length perm0 = length row" "length tp0 = length row"
  shows "shape (length row) m (invert_block m n row perm0 tp0)"
proof -
  have "shape (length row) m (invert_init n row perm0 tp0)"
    using assms by (simp add: shape_def invert_init_def)
  then have "shape (length row) m (invert_prefix m n m (invert_init n row perm0 tp0))"
    by (rule invert_prefix_shape)
  then show ?thesis by (simp add: invert_block_def invert_prefix_def)
qed

text \<open>
  Claim C10. \<open>validate_precision_reduction_feasibility\<close> leaves the block as it was:
  for every lane below \<open>block_size\<close> and every entry index \<open>i < block_size\<close>, \<open>row[i]\<close> after
  the call is \<open>row[i]\<close> on entry, whatever the result of the check. The stride of the
  work buffer is at least \<open>block_size\<close>, so that distinct lanes save to distinct
  addresses.
\<close>

theorem validate_restores_block:
  fixes row :: "'a::linordered_field list list"
  assumes "block_ok max_block_size block_size row [0..<length row] [0..<length row]"
      and "block_size \<le> stride"
      and "lane < block_size" and "i < block_size"
  shows "fst (snd (validate_precision_reduction_feasibility round_trip eps max_block_size
                     block_size row work stride)) ! lane ! i
           = row ! lane ! i"
proof -
  let ?sg = "save_group round_trip max_block_size block_size stride row work"
  let ?st = "invert_block max_block_size block_size (fst ?sg) [0..<length row] [0..<length row]"
  have bm: "block_size \<le> max_block_size" and bg: "block_size \<le> length row"
    and rl: "\<forall>r \<in> {0..<length row}. max_block_size \<le> length (row ! r)"
    using assms(1) by (simp_all add: block_ok_def)
  note sg = save_group_props [OF assms(2), where rt = round_trip and mbs = max_block_size
      and row = row and work = work]
  have lg: "lane < length row" using assms(3) bg by simp
  have im: "i < max_block_size" using assms(4) bm by simp
  have rl1: "\<forall>r \<in> {0..<length (fst ?sg)}. max_block_size \<le> length (fst ?sg ! r)"
    using rl sg(1) sg(2) by simp
  have sh: "shape (length row) max_block_size ?st"
    using invert_block_shape [OF rl1, of "[0..<length row]" "[0..<length row]" block_size] sg(1)
    by simp
  have len: "length (rows ?st) = length row" using sh by (simp add: shape_def)
  have "lane \<in> {0..<length row}" using lg by simp
  then have "max_block_size \<le> length (rows ?st ! lane)" using sh unfolding shape_def by blast
  then have il: "i < length (rows ?st ! lane)" using im by simp
  have "fst (snd (validate_precision_reduction_feasibility round_trip eps max_block_size
                     block_size row work stride)) ! lane
      = restore_lane max_block_size block_size stride (snd ?sg) lane (rows ?st ! lane)"
    using lg len
    by (simp add: validate_precision_reduction_feasibility_def Let_def case_prod_beta)
  then show ?thesis
    using restore_lane_nth [OF assms(3,4) im il] sg(3) [OF lg assms(3,4) im] by simp
qed

text \<open>The theorem at the leading 2-by-2 block of three lanes, with a conversion that
  halves every value.\<close>

theorem validate_restores_block_witness:
  "block_ok 3 2 [[4, 3, 5], [6, 3, 7], [8, 9, 1 :: rat]] [0..<length [[4, 3, 5], [6, 3, 7], [8, 9, 1 :: rat]]]
      [0..<length [[4, 3, 5], [6, 3, 7], [8, 9, 1 :: rat]]] \<and>
   (2::nat) \<le> 2 \<and> (1::nat) < 2 \<and> (0::nat) < 2 \<and>
   fst (snd (validate_precision_reduction_feasibility (\<lambda>x. x / 2) (1 / 2 ^ 52) 3 2
               [[4, 3, 5], [6, 3, 7], [8, 9, 1 :: rat]] (\<lambda>a. 0) 2)) ! 1 ! 0
     = [[4, 3, 5], [6, 3, 7], [8, 9, 1 :: rat]] ! 1 ! 0"
proof -
  let ?M = "[[4, 3, 5], [6, 3, 7], [8, 9, 1 :: rat]]"
  have h1: "block_ok 3 2 ?M [0..<length ?M] [0..<length ?M]" by code_simp
  have h2: "(2::nat) \<le> 2" and h3: "(1::nat) < 2" and h4: "(0::nat) < 2" by simp_all
  from validate_restores_block [OF h1 h2 h3 h4, where round_trip = "\<lambda>x. x / 2"
      and eps = "1 / 2 ^ 52" and work = "\<lambda>a. 0"] h1 h2 h3 h4
  show ?thesis by blast
qed

lemma row_sum_fold:
  "fold (\<lambda>i sum. if i < n then sum + abs ((row::'a::linordered_field list) ! i) else sum)
        [0..<k] 0
     = (\<Sum>i \<in> {..<min n k}. abs (row ! i))"
proof (induction k)
  case 0
  show ?case by simp
next
  case (Suc k)
  show ?case
  proof (cases "k < n")
    case True
    then have "min n (Suc k) = Suc (min n k)" by simp
    then show ?thesis using Suc True by simp
  next
    case False
    then have "min n (Suc k) = min n k" by simp
    then show ?thesis using Suc False by simp
  qed
qed

lemma reduce_max:
  fixes xs :: "'a::linorder list"
  assumes "xs \<noteq> []"
  shows "reduce max xs = Max (set xs)"
proof -
  obtain y ys where xs: "xs = y # ys" using assms by (cases xs) auto
  have "reduce max (y # ys) = fold max ys y"
    by (simp add: foldl_conv_fold max.commute)
  also have "\<dots> = Max (set (y # ys))" by (rule Max.set_eq_fold [symmetric])
  finally show ?thesis unfolding xs .
qed

lemma compute_infinity_norm_eq:
  fixes row :: "'a::linordered_field list list"
  assumes "n \<le> m" "n \<le> length row" "0 < length row"
  shows "compute_infinity_norm m n n row = inf_norm n (mat_of row)"
proof -
  let ?S = "\<lambda>r. \<Sum>c \<in> {..<n}. abs (mat_of row r c)"
  let ?f = "\<lambda>lane. if lane < n then ?S lane else 0"
  have mn: "min n m = n" using assms(1) by simp
  have e: "compute_infinity_norm m n n row = reduce max (map ?f [0..<length row])"
    unfolding compute_infinity_norm_def row_sum_fold mn mat_of_def ..
  have ne: "map ?f [0..<length row] \<noteq> []" using assms(3) by simp
  have m: "compute_infinity_norm m n n row = Max (?f ` {..<length row})"
    unfolding e reduce_max [OF ne] by (simp add: atLeast_upt)
  show ?thesis
  proof (cases "n = 0")
    case True
    have "?f ` {..<length row} = {0}" using True assms(3) by auto
    then show ?thesis unfolding m by (simp add: inf_norm_def True)
  next
    case False
    have nonneg: "0 \<le> ?S r" for r by (simp add: sum_nonneg)
    have "Max (?f ` {..<length row}) = Max (?S ` {..<n})"
    proof (rule Max_eqI)
      show "finite (?f ` {..<length row})" by simp
    next
      fix y assume "y \<in> ?f ` {..<length row}"
      then obtain lane where l: "lane < length row" "y = ?f lane" by auto
      show "y \<le> Max (?S ` {..<n})"
      proof (cases "lane < n")
        case True
        then have "?S lane \<le> Max (?S ` {..<n})" by (intro Max_ge) auto
        then show ?thesis using l True by simp
      next
        case nl: False
        have "?S 0 \<le> Max (?S ` {..<n})" using False by (intro Max_ge) auto
        then have "0 \<le> Max (?S ` {..<n})" using nonneg [of 0] by (rule order_trans [rotated])
        then show ?thesis using l nl by simp
      qed
    next
      have "Max (?S ` {..<n}) \<in> ?S ` {..<n}" using False by (intro Max_in) auto
      then obtain r where r: "r < n" "Max (?S ` {..<n}) = ?S r" by auto
      then have fr: "Max (?S ` {..<n}) = ?f r" and rl: "r \<in> {..<length row}"
        using assms(2) by simp_all
      show "Max (?S ` {..<n}) \<in> ?f ` {..<length row}" using fr rl by blast
    qed
    then show ?thesis unfolding m by (simp add: inf_norm_def False)
  qed
qed

lemma piv_inv_bij:
  assumes "piv_inv n g n st"
  shows "bij_betw (\<lambda>c. trans_perm st ! c) {..<n} {..<n}"
    and "bij_betw (\<lambda>r. perm st ! r) {..<n} {..<n}"
proof -
  have tp: "\<And>c. c < n \<Longrightarrow> trans_perm st ! c < n \<and> perm st ! (trans_perm st ! c) = c"
    using assms unfolding piv_inv_def by blast
  have pm: "\<And>r. r < n \<Longrightarrow> perm st ! r < n \<and> trans_perm st ! (perm st ! r) = r"
    using assms all_pivoted_at_end [OF assms] unfolding piv_inv_def by blast
  show "bij_betw (\<lambda>c. trans_perm st ! c) {..<n} {..<n}"
    by (rule bij_betw_byWitness [where f' = "\<lambda>r. perm st ! r"]) (use tp pm in auto)
  show "bij_betw (\<lambda>r. perm st ! r) {..<n} {..<n}"
    by (rule bij_betw_byWitness [where f' = "\<lambda>c. trans_perm st ! c"]) (use tp pm in auto)
qed

lemma inf_norm_unpermuted:
  fixes st :: "'a::linordered_field block_state"
  assumes "piv_inv n g n st"
  shows "inf_norm n (unpermuted st) = inf_norm n (mat_of (rows st))"
proof (cases "n = 0")
  case True
  then show ?thesis by (simp add: inf_norm_def)
next
  case False
  note b = piv_inv_bij [OF assms]
  let ?h = "\<lambda>r. \<Sum>c \<in> {..<n}. abs (rows st ! r ! c)"
  have "(\<Sum>j \<in> {..<n}. abs (unpermuted st i j)) = ?h (trans_perm st ! i)" for i
    unfolding unpermuted_def
    by (rule sum.reindex_bij_betw [OF b(2), where g = "\<lambda>c. abs (rows st ! (trans_perm st ! i) ! c)"])
  then have "(\<lambda>i. \<Sum>j \<in> {..<n}. abs (unpermuted st i j)) ` {..<n}
           = ?h ` ((\<lambda>c. trans_perm st ! c) ` {..<n})"
    by (simp add: image_image)
  also have "\<dots> = ?h ` {..<n}" using b(1) by (simp add: bij_betw_def)
  finally show ?thesis by (simp add: inf_norm_def False mat_of_def)
qed

lemma fold_save_row_fst:
  "i < length row \<Longrightarrow>
   fst (fold (\<lambda>i (row, work).
           if i < bs then (row[i := rt (row ! i)], work(i * stride + lane := row ! i))
           else (row, work)) [0..<k] (row, work)) ! i
     = (if i < k \<and> i < bs then rt (row ! i) else row ! i)"
proof (induction k)
  case 0
  show ?case by simp
next
  case (Suc k)
  let ?F = "\<lambda>i (row, work).
           if i < bs then (row[i := rt (row ! i)], work(i * stride + lane := row ! i))
           else (row, work)"
  obtain r w where rw: "fold ?F [0..<k] (row, work) = (r, w)" by (cases "fold ?F [0..<k] (row, work)")
  note fs = fold_save_row [where bs = bs and rt = rt and stride = stride and lane = lane
      and k = k and row = row and work = work, unfolded rw]
  have len: "length r = length row" and rk: "r ! k = row ! k" using fs by simp_all
  have IH: "r ! i = (if i < k \<and> i < bs then rt (row ! i) else row ! i)"
    using Suc rw by simp
  have step: "fold ?F [0..<Suc k] (row, work)
      = (if k < bs then (r[k := rt (r ! k)], w(k * stride + lane := r ! k)) else (r, w))"
    using rw by simp
  show ?case unfolding step using IH len rk Suc.prems
    by (cases "i = k") (auto simp: less_Suc_eq)
qed

lemma save_group_fst:
  "k \<le> length row \<Longrightarrow>
   length (fst (fold (\<lambda>lane (acc, work).
             let (r, work') = save_lane rt mbs bs stride lane (row ! lane, work)
             in (acc @ [r], work')) [0..<k] ([], work))) = k \<and>
   (\<forall>lane < k. \<exists>w. fst (fold (\<lambda>lane (acc, work).
             let (r, work') = save_lane rt mbs bs stride lane (row ! lane, work)
             in (acc @ [r], work')) [0..<k] ([], work)) ! lane
         = fst (save_lane rt mbs bs stride lane (row ! lane, w)))"
proof (induction k)
  case 0
  show ?case by simp
next
  case (Suc k)
  let ?F = "\<lambda>lane (acc, work).
             let (r, work') = save_lane rt mbs bs stride lane (row ! lane, work)
             in (acc @ [r], work')"
  obtain acc w where aw: "fold ?F [0..<k] ([], work) = (acc, w)"
    by (cases "fold ?F [0..<k] ([], work)")
  have la: "length acc = k"
    and IH: "\<And>lane. lane < k \<Longrightarrow>
      \<exists>w. acc ! lane = fst (save_lane rt mbs bs stride lane (row ! lane, w))"
    using Suc aw by simp_all
  let ?sl = "save_lane rt mbs bs stride k (row ! k, w)"
  have step: "fold ?F [0..<Suc k] ([], work) = (acc @ [fst ?sl], snd ?sl)"
    using aw by (simp add: case_prod_beta Let_def)
  show ?case unfolding step
  proof (intro conjI allI impI)
    show "length (fst (acc @ [fst ?sl], snd ?sl)) = Suc k" using la by simp
  next
    fix lane assume "lane < Suc k"
    then show "\<exists>w. fst (acc @ [fst ?sl], snd ?sl) ! lane
                 = fst (save_lane rt mbs bs stride lane (row ! lane, w))"
      using IH la by (cases "lane = k") (auto simp: nth_append)
  qed
qed

lemma save_group_entry:
  assumes "lane < length row" "i < length (row ! lane)"
  shows "fst (save_group rt mbs bs stride row work) ! lane ! i
       = (if lane < bs \<and> i < bs \<and> i < mbs then rt (row ! lane ! i) else row ! lane ! i)"
proof -
  from save_group_fst [OF le_refl, where row = row and rt = rt and mbs = mbs and bs = bs
      and stride = stride and work = work] assms(1)
  obtain w where w: "fst (save_group rt mbs bs stride row work) ! lane
      = fst (save_lane rt mbs bs stride lane (row ! lane, w))"
    unfolding save_group_def by blast
  show ?thesis unfolding w
    using fold_save_row_fst [OF assms(2), where bs = bs and rt = rt and stride = stride
        and lane = lane and k = mbs and work = w]
    by (auto simp: save_lane_def)
qed

lemma inf_norm_cong:
  assumes "\<And>r c. r < n \<Longrightarrow> c < n \<Longrightarrow> A r c = B r c"
  shows "inf_norm n A = inf_norm n B"
proof -
  have "(\<lambda>r. \<Sum>c \<in> {..<n}. abs (A r c)) ` {..<n} = (\<lambda>r. \<Sum>c \<in> {..<n}. abs (B r c)) ` {..<n}"
    using assms by (intro image_cong refl sum.cong) simp_all
  then show ?thesis by (simp add: inf_norm_def)
qed

text \<open>
  Claim C5, as stated: the block is accepted only if the condition number times the
  unit roundoff of the reduced storage format is below \<open>1e-3\<close>. The block
  \<open>diag(1, 2^-17)\<close> of doubles is exactly representable in single precision, its
  condition number is \<open>2^17\<close>, and the check, which multiplies with the epsilon
  \<open>2^-52\<close> of the working type, accepts it, although \<open>2^17 * 2^-24 = 2^-7\<close> is not below
  \<open>1e-3\<close>.
\<close>

theorem validate_reduced_eps_counterexample:
  "fst (validate_precision_reduction_feasibility (\<lambda>x. x) (1 / 2 ^ 52) 2 2
          [[1, 0], [0, 1 / 131072 :: rat]] (\<lambda>a. 0) 2) \<and>
   \<not> (inf_norm 2 (round_tripped (\<lambda>x. x) [[1, 0], [0, 1 / 131072 :: rat]])
        * inf_norm 2 (unpermuted (invert_block 2 2 [[1, 0], [0, 1 / 131072 :: rat]]
                                    [0, 1] [0, 1]))
        * (1 / 2 ^ 24) < 1 / 1000)"
  by code_simp

text \<open>
  Claim C5, amended. \<open>validate_precision_reduction_feasibility\<close> accepts if and only if
  the inversion of the round-tripped block succeeds, the surrogate condition number
  \<open>cond\<close> (the infinity norm of the round-tripped block times that of the matrix returned
  by the inversion, unpermuted) is at least 1, and \<open>cond\<close> times \<open>eps\<close>, the epsilon of
  the working value type, is below \<open>1e-3\<close>. The block handed to the inversion is the
  entrywise round trip of the input, and when the inversion succeeds the unpermuted
  result is an inverse of it.
\<close>

theorem validate_accepts_iff:
  fixes row :: "'a::linordered_field list list"
  assumes "block_ok max_block_size block_size row [0..<length row] [0..<length row]"
      and "0 < length row"
  shows "let reduced = fst (save_group round_trip max_block_size block_size stride row work);
             st = invert_block max_block_size block_size reduced
                    [0..<length row] [0..<length row];
             cond = inf_norm block_size (round_tripped round_trip row)
                    * inf_norm block_size (unpermuted st)
         in (fst (validate_precision_reduction_feasibility round_trip eps max_block_size
                    block_size row work stride)
               = (status st \<and> 1 \<le> cond \<and> cond * eps < 1 / 1000)) \<and>
            (\<forall>r < block_size. \<forall>c < block_size. reduced ! r ! c = round_trip (row ! r ! c)) \<and>
            (status st \<longrightarrow> mat_mult_id block_size (unpermuted st) (mat_of reduced))"
proof -
  let ?n = block_size and ?m = max_block_size and ?g = "length row"
  define reduced where "reduced = fst (save_group round_trip ?m ?n stride row work)"
  define st where "st = invert_block ?m ?n reduced [0..<?g] [0..<?g]"
  have nm: "?n \<le> ?m" and ng: "?n \<le> ?g"
    and rl: "\<forall>r \<in> {0..<?g}. ?m \<le> length (row ! r)"
    using assms(1) by (simp_all add: block_ok_def)
  have lr: "length reduced = ?g"
    using save_group_fst [OF le_refl, where row = row and rt = round_trip and mbs = ?m
        and bs = ?n and stride = stride and work = work]
    by (simp add: reduced_def save_group_def)
  have ent: "reduced ! r ! c
      = (if r < ?n \<and> c < ?n \<and> c < ?m then round_trip (row ! r ! c) else row ! r ! c)"
    if "r < ?g" "c < length (row ! r)" for r c
    unfolding reduced_def using save_group_entry [OF that] .
  have rowlen: "length (reduced ! r) = length (row ! r)" if "r < ?g" for r
  proof -
    from save_group_fst [OF le_refl, where row = row and rt = round_trip and mbs = ?m
        and bs = ?n and stride = stride and work = work] that
    obtain w where "reduced ! r = fst (save_lane round_trip ?m ?n stride r (row ! r, w))"
      unfolding reduced_def save_group_def by blast
    then show ?thesis using save_lane_props(1) by simp
  qed
  have ok: "block_ok ?m ?n reduced [0..<?g] [0..<?g]"
    using nm ng rl lr rowlen by (simp add: block_ok_def)
  have e: "st = invert_prefix ?m ?n ?n (invert_init ?n reduced [0..<?g] [0..<?g])"
    unfolding st_def using invert_block_prefix [OF nm] .
  have sh: "shape ?g ?m st" and pi: "piv_inv ?n ?g ?n st"
    using invert_prefix_inv [OF ok, of ?n] lr unfolding e by simp_all
  have lst: "length (rows st) = ?g" using sh by (simp add: shape_def)
  have n1: "compute_infinity_norm ?m ?n ?n reduced = inf_norm ?n (round_tripped round_trip row)"
  proof -
    have "compute_infinity_norm ?m ?n ?n reduced = inf_norm ?n (mat_of reduced)"
      using compute_infinity_norm_eq [OF nm, of reduced] ng lr assms(2) by simp
    also have "\<dots> = inf_norm ?n (round_tripped round_trip row)"
    proof (rule inf_norm_cong)
      fix r c assume r: "r < ?n" and c: "c < ?n"
      have "r \<in> {0..<?g}" using r ng by simp
      then have "c < length (row ! r)" using rl c nm by (metis less_le_trans)
      then show "mat_of reduced r c = round_tripped round_trip row r c"
        using ent [of r c] r c ng nm by (simp add: mat_of_def round_tripped_def)
    qed
    finally show ?thesis .
  qed
  have n2: "compute_infinity_norm ?m ?n ?n (rows st) = inf_norm ?n (unpermuted st)"
    using compute_infinity_norm_eq [OF nm, of "rows st"] ng lst assms(2)
      inf_norm_unpermuted [OF pi] by simp
  have v: "fst (validate_precision_reduction_feasibility round_trip eps ?m ?n row work stride)
      = (status st \<and>
         1 \<le> compute_infinity_norm ?m ?n ?n reduced * compute_infinity_norm ?m ?n ?n (rows st) \<and>
         compute_infinity_norm ?m ?n ?n reduced * compute_infinity_norm ?m ?n ?n (rows st) * eps
           < 1 / 1000)"
    by (simp add: validate_precision_reduction_feasibility_def Let_def case_prod_beta
        reduced_def st_def)
  have c1: "fst (validate_precision_reduction_feasibility round_trip eps ?m ?n row work stride)
      = (status st \<and>
         1 \<le> inf_norm ?n (round_tripped round_trip row) * inf_norm ?n (unpermuted st) \<and>
         inf_norm ?n (round_tripped round_trip row) * inf_norm ?n (unpermuted st) * eps
           < 1 / 1000)"
    unfolding v n1 n2 ..
  have c2: "\<forall>r < ?n. \<forall>c < ?n. reduced ! r ! c = round_trip (row ! r ! c)"
  proof (intro allI impI)
    fix r c assume r: "r < ?n" and c: "c < ?n"
    have "r \<in> {0..<?g}" using r ng by simp
    then have "c < length (row ! r)" using rl c nm by (metis less_le_trans)
    then show "reduced ! r ! c = round_trip (row ! r ! c)"
      using ent [of r c] r c ng nm by simp
  qed
  have c3: "status st \<longrightarrow> mat_mult_id ?n (unpermuted st) (mat_of reduced)"
    using status_left_inverse [OF ok] unfolding st_def by blast
  show ?thesis
    unfolding Let_def reduced_def [symmetric] st_def [symmetric]
    using c1 c2 c3 by blast
qed

text \<open>The theorem at the block \<open>diag(1, 2^-17)\<close> with the identity as conversion.\<close>

theorem validate_accepts_iff_witness:
  "block_ok 2 2 [[1, 0], [0, 1 / 131072 :: rat]] [0..<length [[1, 0], [0, 1 / 131072 :: rat]]]
      [0..<length [[1, 0], [0, 1 / 131072 :: rat]]] \<and>
   0 < length [[1, 0], [0, 1 / 131072 :: rat]] \<and>
   (let reduced = fst (save_group (\<lambda>x. x) 2 2 2 [[1, 0], [0, 1 / 131072 :: rat]] (\<lambda>a. 0));
        st = invert_block 2 2 reduced [0..<length [[1, 0], [0, 1 / 131072 :: rat]]]
               [0..<length [[1, 0], [0, 1 / 131072 :: rat]]];
        cond = inf_norm 2 (round_tripped (\<lambda>x. x) [[1, 0], [0, 1 / 131072 :: rat]])
               * inf_norm 2 (unpermuted st)
    in (fst (validate_precision_reduction_feasibility (\<lambda>x. x) (1 / 2 ^ 52) 2 2
               [[1, 0], [0, 1 / 131072 :: rat]] (\<lambda>a. 0) 2)
          = (status st \<and> 1 \<le> cond \<and> cond * (1 / 2 ^ 52) < 1 / 1000)) \<and>
       (\<forall>r < 2. \<forall>c < 2. reduced ! r ! c = (\<lambda>x. x) ([[1, 0], [0, 1 / 131072 :: rat]] ! r ! c)) \<and>
       (status st \<longrightarrow> mat_mult_id 2 (unpermuted st) (mat_of reduced)))"
proof -
  let ?M = "[[1, 0], [0, 1 / 131072 :: rat]]"
  have h1: "block_ok 2 2 ?M [0..<length ?M] [0..<length ?M]" by code_simp
  have h2: "0 < length ?M" by simp
  from validate_accepts_iff [OF h1 h2, where round_trip = "\<lambda>x. x" and stride = 2
      and work = "\<lambda>a. 0" and eps = "1 / 2 ^ 52"] h1 h2
  show ?thesis by blast
qed

section \<open>Adaptive block-Jacobi: agreement on the storage precision\<close>

text \<open>
  \<open>adaptive_generate\<close>, from the per-lane precision descriptor to the commit of the
  precision. A warp is the list of its lanes \<open>0, \<dots>, warp_size - 1\<close>. The block id of a
  lane (\<open>thread::get_subwarp_id\<close>) and the functions of the precision-reduction interface
  are not among the translated sources and are parameters: \<open>singleton\<close> (the descriptor
  of one precision), \<open>get_supported_storage_reductions\<close> (given as the value it returns in
  each lane, which stands for the accuracy, the condition number of the lane's block and
  the two feasibility checks) and \<open>get_optimal_storage_reduction\<close>. A lane without a block
  keeps the descriptor \<open>~uint32{}\<close>.
\<close>

unbundle bit_operations_syntax

definition lane_prec_descriptor ::
  "('p \<Rightarrow> 32 word) \<Rightarrow> 'p \<Rightarrow> (nat \<Rightarrow> 32 word) \<Rightarrow> nat \<Rightarrow> (nat \<Rightarrow> 'p) \<Rightarrow> (nat \<Rightarrow> nat) \<Rightarrow> nat
     \<Rightarrow> 32 word" where
  "lane_prec_descriptor singleton autodetect get_supported_storage_reductions num_blocks
       block_precisions block_id lane =
     (if block_id lane < num_blocks
      then (let prec = block_precisions (block_id lane)
            in if prec = autodetect then get_supported_storage_reductions lane
               else singleton prec)
      else NOT 0)"

text \<open>
  Every lane reduces the descriptors over the warp with bitwise conjunction and takes
  the optimal precision of the result; a lane with a block writes it to
  \<open>block_precisions[block_id]\<close> and stores its row in this precision. The result is the
  store \<open>block_precisions\<close> after the writes of all lanes, and per lane the precision of
  its stored row (\<open>None\<close> for a lane without a block).
\<close>

definition adaptive_generate ::
  "(32 word \<Rightarrow> 'p) \<Rightarrow> ('p \<Rightarrow> 32 word) \<Rightarrow> 'p \<Rightarrow> (nat \<Rightarrow> 32 word) \<Rightarrow> nat \<Rightarrow> (nat \<Rightarrow> nat) \<Rightarrow> nat
     \<Rightarrow> (nat \<Rightarrow> 'p) \<Rightarrow> (nat \<Rightarrow> 'p) \<times> 'p option list" where
  "adaptive_generate get_optimal_storage_reduction singleton autodetect
       get_supported_storage_reductions num_blocks block_id warp_size block_precisions =
     (let prec_descriptor =
            map (lane_prec_descriptor singleton autodetect get_supported_storage_reductions
                   num_blocks block_precisions block_id)
                [0..<warp_size];
          prec = map (\<lambda>lane. get_optimal_storage_reduction
                                (reduce (\<lambda>x y. x AND y) prec_descriptor))
                     [0..<warp_size]
      in (fold (\<lambda>lane bp. if block_id lane < num_blocks
                           then bp(block_id lane := prec ! lane) else bp)
               [0..<warp_size] block_precisions,
          map (\<lambda>lane. if block_id lane < num_blocks then Some (prec ! lane) else None)
              [0..<warp_size]))"

text \<open>The lanes of the warp that hold a row of some block.\<close>

definition active_lanes :: "nat \<Rightarrow> (nat \<Rightarrow> nat) \<Rightarrow> nat \<Rightarrow> nat list" where
  "active_lanes num_blocks block_id warp_size =
     filter (\<lambda>lane. block_id lane < num_blocks) [0..<warp_size]"

lemma foldl_and_bit:
  "bit (foldl (\<lambda>x y. x AND y) (x :: 32 word) xs) n = (bit x n \<and> list_all (\<lambda>d. bit d n) xs)"
  by (induction xs arbitrary: x) (auto simp add: bit_and_iff)

lemma reduce_and_bit:
  assumes "xs \<noteq> []"
  shows "bit (reduce (\<lambda>x y. x AND y) (xs :: 32 word list)) n = list_all (\<lambda>d. bit d n) xs"
proof -
  from assms obtain y ys where "xs = y # ys" by (cases xs) auto
  then show ?thesis by (simp add: foldl_and_bit)
qed

lemma fold_commit:
  "fold (\<lambda>lane bp. if P lane then bp(f lane := g lane) else bp) xs bp0 b
     = (if \<exists>lane \<in> set xs. P lane \<and> f lane = b
        then g (last (filter (\<lambda>lane. P lane \<and> f lane = b) xs)) else bp0 b)"
proof (induction xs arbitrary: bp0 rule: rev_induct)
  case Nil
  then show ?case by simp
next
  case (snoc x xs)
  then show ?case by (auto simp add: fun_upd_def)
qed

lemma descriptor_bits:
  fixes desc :: "nat \<Rightarrow> 32 word"
  assumes "lane < warp_size" and "block_id lane < num_blocks"
    and "\<And>l. \<not> block_id l < num_blocks \<Longrightarrow> desc l = NOT 0"
  shows "bit (reduce (\<lambda>x y. x AND y) (map desc [0..<warp_size])) n
     = (n < 32 \<and> list_all (\<lambda>l. bit (desc l) n) (active_lanes num_blocks block_id warp_size))"
proof -
  have ne: "map desc [0..<warp_size] \<noteq> []" using assms(1) by auto
  have "bit (reduce (\<lambda>x y. x AND y) (map desc [0..<warp_size])) n
      = (\<forall>l < warp_size. bit (desc l) n)"
    unfolding reduce_and_bit [OF ne] by (auto simp add: list_all_iff)
  also have "\<dots> = (n < 32 \<and> (\<forall>l < warp_size. block_id l < num_blocks \<longrightarrow> bit (desc l) n))"
  proof
    assume a: "\<forall>l < warp_size. bit (desc l) n"
    then have "bit (desc lane) n" using assms(1) by blast
    then have "n < 32" using bit_imp_le_length [of "desc lane" n] by simp
    then show "n < 32 \<and> (\<forall>l < warp_size. block_id l < num_blocks \<longrightarrow> bit (desc l) n)"
      using a by blast
  next
    assume a: "n < 32 \<and> (\<forall>l < warp_size. block_id l < num_blocks \<longrightarrow> bit (desc l) n)"
    show "\<forall>l < warp_size. bit (desc l) n"
    proof (intro allI impI)
      fix l assume l: "l < warp_size"
      show "bit (desc l) n"
      proof (cases "block_id l < num_blocks")
        case True
        then show ?thesis using a l by blast
      next
        case False
        then have "desc l = NOT 0" by (rule assms(3))
        then show ?thesis using a by (simp add: bit_not_iff)
      qed
    qed
  qed
  also have "\<dots> = (n < 32 \<and> list_all (\<lambda>l. bit (desc l) n) (active_lanes num_blocks block_id warp_size))"
    by (auto simp add: active_lanes_def list_all_iff)
  finally show ?thesis .
qed

text \<open>
  Claim C9. In \<open>adaptive_generate\<close> the committed precision comes from the bitwise
  conjunction of the lanes' descriptors over the whole warp: there is one descriptor
  \<open>w\<close>, whose bit \<open>n\<close> is set exactly when it is set in the descriptor of every lane that
  holds a block (the other lanes restrict nothing), such that any two lanes with a block
  store their rows in the precision \<open>get_optimal_storage_reduction w\<close>, and this is the tag
  written for their blocks. So all lanes that cover one block write the same tag, and no
  two rows of a block are stored in different precisions.
\<close>

theorem adaptive_generate_agrees:
  assumes "lane < warp_size" and "block_id lane < num_blocks"
      and "lane' < warp_size" and "block_id lane' < num_blocks"
  shows "\<exists>w. (\<forall>n. bit w n
              = (n < 32 \<and>
                 list_all (\<lambda>l. bit (lane_prec_descriptor singleton autodetect
                                     get_supported_storage_reductions num_blocks
                                     block_precisions block_id l) n)
                          (active_lanes num_blocks block_id warp_size))) \<and>
             snd (adaptive_generate get_optimal_storage_reduction singleton autodetect
                    get_supported_storage_reductions num_blocks block_id warp_size
                    block_precisions) ! lane
               = Some (get_optimal_storage_reduction w) \<and>
             snd (adaptive_generate get_optimal_storage_reduction singleton autodetect
                    get_supported_storage_reductions num_blocks block_id warp_size
                    block_precisions) ! lane'
               = Some (get_optimal_storage_reduction w) \<and>
             fst (adaptive_generate get_optimal_storage_reduction singleton autodetect
                    get_supported_storage_reductions num_blocks block_id warp_size
                    block_precisions) (block_id lane)
               = get_optimal_storage_reduction w"
proof -
  let ?desc = "lane_prec_descriptor singleton autodetect get_supported_storage_reductions
                 num_blocks block_precisions block_id"
  let ?w = "reduce (\<lambda>x y. x AND y) (map ?desc [0..<warp_size])"
  let ?P = "\<lambda>l. block_id l < num_blocks"
  let ?prec = "map (\<lambda>lane::nat. get_optimal_storage_reduction ?w) [0..<warp_size]"
  have idle: "\<And>l. \<not> block_id l < num_blocks \<Longrightarrow> ?desc l = NOT 0"
    by (simp add: lane_prec_descriptor_def)
  have bits: "\<forall>n. bit ?w n
      = (n < 32 \<and> list_all (\<lambda>l. bit (?desc l) n) (active_lanes num_blocks block_id warp_size))"
    using descriptor_bits [where desc = ?desc and lane = lane and warp_size = warp_size
        and block_id = block_id and num_blocks = num_blocks] assms(1,2) idle by blast
  have s1: "snd (adaptive_generate get_optimal_storage_reduction singleton autodetect
                    get_supported_storage_reductions num_blocks block_id warp_size
                    block_precisions) ! lane = Some (get_optimal_storage_reduction ?w)"
    using assms(1,2) by (simp add: adaptive_generate_def Let_def)
  have s2: "snd (adaptive_generate get_optimal_storage_reduction singleton autodetect
                    get_supported_storage_reductions num_blocks block_id warp_size
                    block_precisions) ! lane' = Some (get_optimal_storage_reduction ?w)"
    using assms(3,4) by (simp add: adaptive_generate_def Let_def)
  let ?xs = "filter (\<lambda>l. ?P l \<and> block_id l = block_id lane) [0..<warp_size]"
  have mem: "lane \<in> set ?xs" using assms(1,2) by simp
  have "?xs \<noteq> []"
  proof
    assume "?xs = []"
    then have "set ?xs = {}" by (simp only: list.set)
    with mem show False by auto
  qed
  then have "last ?xs \<in> set ?xs" by (rule last_in_set)
  then have ll: "last ?xs < warp_size" by simp
  have ex: "\<exists>l \<in> set [0..<warp_size]. ?P l \<and> block_id l = block_id lane"
    using assms(1,2) by auto
  have "fst (adaptive_generate get_optimal_storage_reduction singleton autodetect
                    get_supported_storage_reductions num_blocks block_id warp_size
                    block_precisions) (block_id lane)
      = fold (\<lambda>l bp. if ?P l then bp(block_id l := ?prec ! l) else bp)
          [0..<warp_size] block_precisions (block_id lane)"
    by (simp add: adaptive_generate_def Let_def)
  also have "\<dots> = ?prec ! last ?xs"
    unfolding fold_commit [where P = ?P and f = block_id and g = "\<lambda>l. ?prec ! l"]
    using ex by simp
  also have "\<dots> = get_optimal_storage_reduction ?w" using ll by simp
  finally have s3: "fst (adaptive_generate get_optimal_storage_reduction singleton autodetect
                    get_supported_storage_reductions num_blocks block_id warp_size
                    block_precisions) (block_id lane) = get_optimal_storage_reduction ?w" .
  show ?thesis
    by (rule exI [where x = ?w]) (simp only: bits s1 s2 s3 simp_thms)
qed

text \<open>The theorem at a warp of four lanes in subwarps of two with a single block: lanes
  0 and 1 hold the block, with different descriptors, and lanes 2 and 3 are idle.\<close>

theorem adaptive_generate_agrees_witness:
  "(0::nat) < 4 \<and> (\<lambda>l. l div 2) (0::nat) < (1::nat) \<and>
   (1::nat) < 4 \<and> (\<lambda>l. l div 2) (1::nat) < (1::nat) \<and>
   (\<exists>w :: 32 word. (\<forall>n. bit w n
              = (n < 32 \<and>
                 list_all (\<lambda>l. bit (lane_prec_descriptor (\<lambda>p. push_bit p 1) (9::nat)
                                     (\<lambda>l. if l = 0 then 6 else 7) 1
                                     (\<lambda>b. 9) (\<lambda>l. l div 2) l) n)
                          (active_lanes 1 (\<lambda>l. l div 2) 4))) \<and>
        snd (adaptive_generate (\<lambda>w. if bit w 2 then (2::nat) else if bit w 1 then 1 else 0)
               (\<lambda>p. push_bit p 1) 9 (\<lambda>l. if l = 0 then 6 else 7) 1 (\<lambda>l. l div 2) 4
               (\<lambda>b. 9)) ! 0
          = Some ((\<lambda>w. if bit w 2 then (2::nat) else if bit w 1 then 1 else 0) w) \<and>
        snd (adaptive_generate (\<lambda>w. if bit w 2 then (2::nat) else if bit w 1 then 1 else 0)
               (\<lambda>p. push_bit p 1) 9 (\<lambda>l. if l = 0 then 6 else 7) 1 (\<lambda>l. l div 2) 4
               (\<lambda>b. 9)) ! 1
          = Some ((\<lambda>w. if bit w 2 then (2::nat) else if bit w 1 then 1 else 0) w) \<and>
        fst (adaptive_generate (\<lambda>w. if bit w 2 then (2::nat) else if bit w 1 then 1 else 0)
               (\<lambda>p. push_bit p 1) 9 (\<lambda>l. if l = 0 then 6 else 7) 1 (\<lambda>l. l div 2) 4
               (\<lambda>b. 9)) ((\<lambda>l. l div 2) 0)
          = (\<lambda>w. if bit w 2 then (2::nat) else if bit w 1 then 1 else 0) w)"
proof -
  have h1: "(0::nat) < 4" and h2: "(\<lambda>l. l div 2) (0::nat) < (1::nat)"
    and h3: "(1::nat) < 4" and h4: "(\<lambda>l. l div 2) (1::nat) < (1::nat)" by simp_all
  from adaptive_generate_agrees [where lane = 0 and lane' = 1 and warp_size = 4
      and block_id = "\<lambda>l. l div 2" and num_blocks = 1, OF h1 h2 h3 h4,
      where get_optimal_storage_reduction
        = "\<lambda>w. if bit w 2 then (2::nat) else if bit w 1 then 1 else 0"
      and singleton = "\<lambda>p. push_bit p 1" and autodetect = 9
      and get_supported_storage_reductions = "\<lambda>l. if l = 0 then 6 else 7"
      and block_precisions = "\<lambda>b. 9"] h1 h2 h3 h4
  show ?thesis by (intro conjI) assumption+
qed

section \<open>Synchronization-free scheduler of the factorization\<close>

text \<open>
  The scheduler of \<open>syncfree.hpp.inc\<close> and the control skeleton of the kernel
  \<open>factorize\<close> of \<open>cholesky_kernels.hpp.inc\<close>, which uses it. The thread blocks of the
  grid and their subwarps run concurrently; a run of the kernel is given by a schedule,
  the list of the agents in the order in which they take a step. A step is one access to
  the shared status words (the atomic increment of the block counter, one acquire load
  of \<open>wait\<close>, one release store of \<open>mark_ready\<close>) or a piece of thread-local work.
  Every access is made by the memory operation that the source uses, and is recorded
  with its kind, its location and its value in the trace of the run. A load returns the
  value of the latest store of the schedule to its location; an acquire load that reads
  the value of a release store is preceded by that store in the trace. The matrix
  values are not modelled, only the places of the program where the arithmetic happens.

  The program counter of a subwarp is \<open>Start\<close> until it has left the constructor of the
  scheduler; \<open>Loop ds\<close> at the head of the loop over the lower triangular entries of
  its row, with the dependencies \<open>ds\<close> still to come (it polls the first of them in
  \<open>wait\<close>); \<open>Elim d ds\<close> when \<open>wait(d)\<close> has returned and the row subtracts column \<open>d\<close>;
  \<open>Notify\<close> inside \<open>mark_ready\<close>, between the store to the shared status word of the
  block and the store to the global one; \<open>Ready\<close> after \<open>mark_ready\<close>; \<open>Exited\<close> after
  the early return of a subwarp whose row does not exist.
\<close>

datatype phase = Start | Loop "nat list" | Elim nat "nat list" | Notify | Ready | Exited

datatype agent = Block nat | Subwarp nat nat

text \<open>
  An access to a status word or to the block counter: the agent, the kind of the memory
  operation, the location (word \<open>i\<close> of the shared storage of block \<open>b\<close>, or word \<open>i\<close> of
  the global array), and the value read or written.
\<close>

datatype access_kind = Atomic_add | Plain_store | Load_acquire | Store_release

datatype location = Shared nat nat | Global nat

type_synonym access = "agent \<times> access_kind \<times> location \<times> nat"

text \<open>
  The state. \<open>global_status\<close> is the array of \<open>syncfree_storage\<close>: the status words of the
  rows, followed by the block counter. \<open>local_status\<close> and \<open>block_offset\<close> are the shared
  storage of each thread block (\<open>block_offset\<close> is \<open>None\<close> until the constructor of the
  block has run). \<open>trace\<close> is the history of the accesses.
\<close>

record sched_state =
  global_status :: "nat list"
  local_status :: "nat \<Rightarrow> nat \<Rightarrow> nat"
  block_offset :: "nat \<Rightarrow> nat option"
  pc :: "nat \<Rightarrow> nat \<Rightarrow> phase"
  trace :: "access list"

















definition goto :: "nat \<Rightarrow> nat \<Rightarrow> phase \<Rightarrow> sched_state \<Rightarrow> sched_state" where
  "goto b s p st = st\<lparr>pc := (pc st)(b := (pc st b)(s := p))\<rparr>"





text \<open>The history of the stores to the global array, each with its agent, index and
  value; the stores to the status word of row \<open>r\<close>; and \<open>row_done\<close>: the subwarp that owns
  row \<open>d\<close> has finished the arithmetic of the row and has entered \<open>mark_ready\<close>.\<close>

fun global_store :: "access \<Rightarrow> (agent \<times> nat \<times> nat) list" where
  "global_store (a, k, Global i, v) = (if k = Load_acquire then [] else [(a, i, v)])"
| "global_store (a, k, Shared b i, v) = []"

definition stores :: "sched_state \<Rightarrow> (agent \<times> nat \<times> nat) list" where
  "stores st = concat (map global_store (trace st))"























lemma goto_sel [simp]:
  "global_status (goto b s p st) = global_status st"
  "local_status (goto b s p st) = local_status st"
  "block_offset (goto b s p st) = block_offset st"
  "stores (goto b s p st) = stores st"
  "trace (goto b s p st) = trace st"
  by (simp_all add: goto_def stores_def)









































end
